theory Spec2Isabelle
  imports Complex_Main "HOL-Library.Signed_Division" "HOL-Library.Monad_Syntax"
begin

section \<open>DataQueue: a per-channel ring of samples with per-block timestamps\<close>

text \<open>
  The development follows \<^verbatim>\<open>Source/DataQueue.cpp\<close>. C++ \<^verbatim>\<open>int\<close> and \<^verbatim>\<open>int64\<close> values are
  modelled as \<^typ>\<open>int\<close>: signed overflow is undefined in C++, so the theorems speak about runs
  in which no arithmetic leaves the range of its type. \<^verbatim>\<open>/\<close> and \<^verbatim>\<open>%\<close> truncate towards
  zero (\<open>sdiv\<close>, \<open>smod\<close>). Samples are only copied, never computed with, and are modelled as
  \<^typ>\<open>real\<close>. Every operation returns an option: \<open>None\<close> stands for undefined behaviour of
  the C++ program (null pointer dereference, division by zero, an access outside an array
  made without a check) and for a loop that does not end.
\<close>

type_synonym sample = real

subsection \<open>The container classes used by the queue\<close>

text \<open>
  \<^verbatim>\<open>Array<T>\<close> of the JUCE library, as a list. \<^verbatim>\<open>operator[]\<close> returns a default value (zero)
  outside the array, \<^verbatim>\<open>getUnchecked\<close> reads without a check, \<^verbatim>\<open>set\<close> replaces an element and
  appends when the index is at or beyond the end (a negative index is ignored), \<^verbatim>\<open>resize\<close>
  truncates or pads with zeros.
\<close>

definition array_get :: "int list \<Rightarrow> int \<Rightarrow> int" where
  "array_get xs i = (if 0 \<le> i \<and> i < int (length xs) then xs ! nat i else 0)"

definition array_getUnchecked :: "int list \<Rightarrow> int \<Rightarrow> int option" where
  "array_getUnchecked xs i = (if 0 \<le> i \<and> i < int (length xs) then Some (xs ! nat i) else None)"

definition array_set :: "int list \<Rightarrow> int \<Rightarrow> int \<Rightarrow> int list" where
  "array_set xs i v =
     (if 0 \<le> i then (if i < int (length xs) then xs[nat i := v] else xs @ [v]) else xs)"

definition array_resize :: "int list \<Rightarrow> int \<Rightarrow> int list" where
  "array_resize xs n = take (nat n) xs @ replicate (nat n - length xs) 0"

text \<open>
  \<^verbatim>\<open>OwnedArray<T>\<close>: \<^verbatim>\<open>operator[]\<close> returns a null pointer outside the array, and the queue
  dereferences the result at once.
\<close>

definition owned_get :: "'a list \<Rightarrow> int \<Rightarrow> 'a option" where
  "owned_get xs i = (if 0 \<le> i \<and> i < int (length xs) then Some (xs ! nat i) else None)"

text \<open>
  \<^verbatim>\<open>AudioSampleBuffer\<close>: one list of samples per channel. \<^verbatim>\<open>setSize\<close> leaves the contents
  unspecified; the model takes a store of zeros, and no theorem below depends on the
  contents after \<^verbatim>\<open>setSize\<close>. \<^verbatim>\<open>copyFrom\<close> does nothing for a count that is not positive, and
  copies without a range check otherwise.
\<close>

type_synonym AudioSampleBuffer = "sample list list"

definition setSize :: "int \<Rightarrow> int \<Rightarrow> AudioSampleBuffer" where
  "setSize newNumChannels newNumSamples =
     replicate (nat newNumChannels) (replicate (nat newNumSamples) 0)"

definition copy_samples :: "sample list \<Rightarrow> nat \<Rightarrow> sample list \<Rightarrow> nat \<Rightarrow> nat \<Rightarrow> sample list" where
  "copy_samples dest destStart src srcStart n =
     take destStart dest @ take n (drop srcStart src) @ drop (destStart + n) dest"

definition copyFrom ::
  "AudioSampleBuffer \<Rightarrow> int \<Rightarrow> int \<Rightarrow> AudioSampleBuffer \<Rightarrow> int \<Rightarrow> int \<Rightarrow> int
     \<Rightarrow> AudioSampleBuffer option" where
  "copyFrom dest destChannel destStartSample source sourceChannel sourceStartSample numSamples =
     (if numSamples > 0 then
        do {
          d \<leftarrow> owned_get dest destChannel;
          s \<leftarrow> owned_get source sourceChannel;
          if 0 \<le> destStartSample \<and> destStartSample + numSamples \<le> int (length d)
              \<and> 0 \<le> sourceStartSample \<and> sourceStartSample + numSamples \<le> int (length s)
          then Some (dest[nat destChannel :=
                 copy_samples d (nat destStartSample) s (nat sourceStartSample) (nat numSamples)])
          else None
        }
      else Some dest)"

subsection \<open>The ring index allocator\<close>

text \<open>
  The two windows an allocator hands out (\<^verbatim>\<open>CircularBufferIndexes\<close> on the read side).
\<close>

record CircularBufferIndexes =
  index1 :: int
  size1 :: int
  index2 :: int
  size2 :: int

text \<open>
  The queue uses the allocator only through these eight operations. The queue's operations
  below take them as a parameter, so that what is proved of the queue for an arbitrary
  \<open>ops\<close> does not depend on how the allocator works.
\<close>

record 'f fifo_ops =
  newFifo :: "int \<Rightarrow> 'f"
  setTotalSize :: "'f \<Rightarrow> int \<Rightarrow> 'f"
  reset :: "'f \<Rightarrow> 'f"
  getNumReady :: "'f \<Rightarrow> int"
  prepareToWrite :: "'f \<Rightarrow> int \<Rightarrow> CircularBufferIndexes"
  finishedWrite :: "'f \<Rightarrow> int \<Rightarrow> 'f"
  prepareToRead :: "'f \<Rightarrow> int \<Rightarrow> CircularBufferIndexes"
  finishedRead :: "'f \<Rightarrow> int \<Rightarrow> 'f"

text \<open>
  Modelled from the spec: the ring index allocator (the class \<^verbatim>\<open>AbstractFifo\<close> of the JUCE
  library, against which the queue is written) is not part of the sources. It tracks a read
  cursor \<open>validStart\<close> and a write cursor \<open>validEnd\<close> over \<open>[0, bufferSize)\<close> with wraparound,
  exposes the number of samples ready to read and the free space, returns for a requested
  length up to two windows (the second one starts at 0 and is non-empty only on wraparound)
  whose lengths sum to at most the requested length and at most what is available, and
  advances a cursor by the completed length. As in that class, one position is always kept
  free, so that a full ring is told from an empty one: a ring of capacity \<open>n\<close> holds at most
  \<open>n - 1\<close> samples, and the free space is 0 when it does.
\<close>

record AbstractFifo =
  bufferSize :: int
  validStart :: int
  validEnd :: int

definition af_new :: "int \<Rightarrow> AbstractFifo" where
  "af_new capacity = \<lparr>bufferSize = capacity, validStart = 0, validEnd = 0\<rparr>"

definition af_reset :: "AbstractFifo \<Rightarrow> AbstractFifo" where
  "af_reset f = f\<lparr>validEnd := 0, validStart := 0\<rparr>"

definition af_setTotalSize :: "AbstractFifo \<Rightarrow> int \<Rightarrow> AbstractFifo" where
  "af_setTotalSize f newSize = (af_reset f)\<lparr>bufferSize := newSize\<rparr>"

definition af_getNumReady :: "AbstractFifo \<Rightarrow> int" where
  "af_getNumReady f =
     (let vs = validStart f; ve = validEnd f
      in if ve \<ge> vs then ve - vs else bufferSize f - (vs - ve))"

definition af_getFreeSpace :: "AbstractFifo \<Rightarrow> int" where
  "af_getFreeSpace f = bufferSize f - af_getNumReady f - 1"

definition af_prepareToWrite :: "AbstractFifo \<Rightarrow> int \<Rightarrow> CircularBufferIndexes" where
  "af_prepareToWrite f numToWrite =
     (let vs = validStart f; ve = validEnd f;
          freeSpace = (if ve \<ge> vs then bufferSize f - (ve - vs) else vs - ve);
          numToWrite1 = min numToWrite (freeSpace - 1)
      in if numToWrite1 \<le> 0
         then \<lparr>index1 = 0, size1 = 0, index2 = 0, size2 = 0\<rparr>
         else
           (let blockSize1 = min (bufferSize f - ve) numToWrite1;
                numToWrite2 = numToWrite1 - blockSize1
            in \<lparr>index1 = ve, size1 = blockSize1, index2 = 0,
                size2 = (if numToWrite2 \<le> 0 then 0 else min numToWrite2 vs)\<rparr>))"

definition af_finishedWrite :: "AbstractFifo \<Rightarrow> int \<Rightarrow> AbstractFifo" where
  "af_finishedWrite f numWritten =
     (let newEnd = validEnd f + numWritten
      in f\<lparr>validEnd := (if newEnd \<ge> bufferSize f then newEnd - bufferSize f else newEnd)\<rparr>)"

definition af_prepareToRead :: "AbstractFifo \<Rightarrow> int \<Rightarrow> CircularBufferIndexes" where
  "af_prepareToRead f numWanted =
     (let vs = validStart f; ve = validEnd f;
          numReady = (if ve \<ge> vs then ve - vs else bufferSize f - (vs - ve));
          numWanted1 = min numWanted numReady
      in if numWanted1 \<le> 0
         then \<lparr>index1 = 0, size1 = 0, index2 = 0, size2 = 0\<rparr>
         else
           (let blockSize1 = min (bufferSize f - vs) numWanted1;
                numWanted2 = numWanted1 - blockSize1
            in \<lparr>index1 = vs, size1 = blockSize1, index2 = 0,
                size2 = (if numWanted2 \<le> 0 then 0 else min numWanted2 ve)\<rparr>))"

definition af_finishedRead :: "AbstractFifo \<Rightarrow> int \<Rightarrow> AbstractFifo" where
  "af_finishedRead f numRead =
     (let newStart = validStart f + numRead
      in f\<lparr>validStart := (if newStart \<ge> bufferSize f then newStart - bufferSize f else newStart)\<rparr>)"

definition AbstractFifo_ops :: "AbstractFifo fifo_ops" where
  "AbstractFifo_ops =
     \<lparr>newFifo = af_new, setTotalSize = af_setTotalSize, reset = af_reset,
      getNumReady = af_getNumReady, prepareToWrite = af_prepareToWrite,
      finishedWrite = af_finishedWrite, prepareToRead = af_prepareToRead,
      finishedRead = af_finishedRead\<rparr>"

subsection \<open>The queue\<close>

record 'f DataQueue =
  m_buffer :: AudioSampleBuffer
  m_fifos :: "'f list"
  m_readSamples :: "int list"
  m_timestamps :: "int list list"
  m_lastReadTimestamps :: "int list"
  m_numChans :: int
  m_blockSize :: int
  m_readInProgress :: bool
  m_numBlocks :: int
  m_maxSize :: int

text \<open>The constructor \<^verbatim>\<open>DataQueue(blockSize, nBlocks)\<close>: no channel yet.\<close>

definition DataQueue_new :: "int \<Rightarrow> int \<Rightarrow> 'f DataQueue" where
  "DataQueue_new blockSize nBlocks =
     \<lparr>m_buffer = setSize 0 (blockSize * nBlocks), m_fifos = [], m_readSamples = [],
      m_timestamps = [], m_lastReadTimestamps = [], m_numChans = 0,
      m_blockSize = blockSize, m_readInProgress = False, m_numBlocks = nBlocks,
      m_maxSize = blockSize * nBlocks\<rparr>"

text \<open>
  \<^verbatim>\<open>for (int i = 0; i < n; ++i) body\<close> over a state: \<open>for_loop (nat n) body\<close> runs the body
  for \<open>i = 0, ..., n - 1\<close> in this order and stops at the first undefined step.
\<close>

fun for_loop :: "nat \<Rightarrow> (int \<Rightarrow> 's \<Rightarrow> 's option) \<Rightarrow> 's \<Rightarrow> 's option" where
  "for_loop 0 body s = Some s"
| "for_loop (Suc n) body s = Option.bind (for_loop n body s) (body (int n))"

text \<open>
  A \<^verbatim>\<open>void\<close> member function returns the unit value beside the new state; \<^verbatim>\<open>startRead\<close>
  returns its \<^verbatim>\<open>bool\<close> and the two arrays it fills through references.
\<close>

definition setChannels :: "'f fifo_ops \<Rightarrow> 'f DataQueue \<Rightarrow> int \<Rightarrow> (unit \<times> 'f DataQueue) option" where
  "setChannels ops q nChans =
     (if m_readInProgress q then Some ((), q)
      else Some ((), q\<lparr>
        m_fifos := replicate (nat nChans) (newFifo ops (m_maxSize q)),
        m_readSamples := replicate (nat nChans) 0,
        m_numChans := nChans,
        m_timestamps := replicate (nat nChans) (array_resize [] (m_numBlocks q)),
        m_lastReadTimestamps := replicate (nat nChans) 0,
        m_buffer := setSize nChans (m_maxSize q)\<rparr>))"

definition getNumChannels :: "'f DataQueue \<Rightarrow> int" where
  "getNumChannels q = m_numChans q"

definition resize_chan :: "'f fifo_ops \<Rightarrow> int \<Rightarrow> int \<Rightarrow> int \<Rightarrow> 'f DataQueue \<Rightarrow> 'f DataQueue option" where
  "resize_chan ops wsize nBlocks i q =
     do {
       fifo \<leftarrow> owned_get (m_fifos q) i;
       tbl \<leftarrow> owned_get (m_timestamps q) i;
       Some (q\<lparr>
         m_fifos := (m_fifos q)[nat i := reset ops (setTotalSize ops fifo wsize)],
         m_readSamples := array_set (m_readSamples q) i 0,
         m_timestamps := (m_timestamps q)[nat i := array_resize tbl nBlocks],
         m_lastReadTimestamps := array_set (m_lastReadTimestamps q) i 0\<rparr>)
     }"

definition resize :: "'f fifo_ops \<Rightarrow> 'f DataQueue \<Rightarrow> int \<Rightarrow> (unit \<times> 'f DataQueue) option" where
  "resize ops q nBlocks =
     (if m_readInProgress q then Some ((), q)
      else
        (let wsize = m_blockSize q * nBlocks;
             q1 = q\<lparr>m_maxSize := wsize, m_numBlocks := nBlocks\<rparr>
         in do {
           q2 \<leftarrow> for_loop (nat (m_numChans q1)) (resize_chan ops wsize nBlocks) q1;
           Some ((), q2\<lparr>m_buffer := setSize (m_numChans q2) wsize\<rparr>)
         }))"

text \<open>
  The loop of \<^verbatim>\<open>fillTimestamps\<close>, \<^verbatim>\<open>for (int i = 0; i < size; i += m_blockSize)\<close>: it does not
  end when the block size is not positive, so it is a partial function. \<open>table\<close> is the
  pointer \<^verbatim>\<open>m_timestamps[channel]\<close>, \<open>None\<close> when it is null: the loop dereferences it
  only where it stamps.
\<close>

partial_function (option) fillTimestamps_loop ::
  "int \<Rightarrow> int \<Rightarrow> int \<Rightarrow> int \<Rightarrow> int \<Rightarrow> int \<Rightarrow> int \<Rightarrow> int list option
     \<Rightarrow> int list option option" where
  "fillTimestamps_loop blockSize index wsize startTimestamp blockStartPos blockIdx i table =
     (if i < wsize then
        (if blockStartPos + i < index + wsize then
           (case table of
              None \<Rightarrow> None
            | Some tbl \<Rightarrow>
                fillTimestamps_loop blockSize index wsize startTimestamp blockStartPos blockIdx
                  (i + blockSize)
                  (Some (array_set tbl blockIdx (startTimestamp + i * blockSize))))
         else
           fillTimestamps_loop blockSize index wsize startTimestamp blockStartPos blockIdx
             (i + blockSize) table)
      else Some table)"

declare fillTimestamps_loop.simps [code]

definition fillTimestamps ::
  "'f DataQueue \<Rightarrow> int \<Rightarrow> int \<Rightarrow> int \<Rightarrow> int \<Rightarrow> 'f DataQueue option" where
  "fillTimestamps q channel index wsize timestamp =
     (if m_blockSize q = 0 then None
      else
        (let blockMod = index smod m_blockSize q;
             blockIdx = index sdiv m_blockSize q;
             startTimestamp = (if blockMod = 0 then timestamp
                               else timestamp + (m_blockSize q - blockMod));
             blockStartPos = (if blockMod = 0 then index
                              else index + (m_blockSize q - blockMod));
             blockIdx1 = (if blockMod = 0 then blockIdx else blockIdx + 1)
         in do {
           table \<leftarrow> fillTimestamps_loop (m_blockSize q) index wsize startTimestamp
                      blockStartPos blockIdx1 0 (owned_get (m_timestamps q) channel);
           Some (case table of
                   None \<Rightarrow> q
                 | Some tbl \<Rightarrow> q\<lparr>m_timestamps := (m_timestamps q)[nat channel := tbl]\<rparr>)
         }))"

definition writeChannel ::
  "'f fifo_ops \<Rightarrow> 'f DataQueue \<Rightarrow> AudioSampleBuffer \<Rightarrow> int \<Rightarrow> int \<Rightarrow> int
     \<Rightarrow> (unit \<times> 'f DataQueue) option" where
  "writeChannel ops q buffer channel nSamples timestamp =
     do {
       fifo \<leftarrow> owned_get (m_fifos q) channel;
       let w = prepareToWrite ops fifo nSamples;
       buf1 \<leftarrow> copyFrom (m_buffer q) channel (index1 w) buffer channel 0 (size1 w);
       q1 \<leftarrow> fillTimestamps (q\<lparr>m_buffer := buf1\<rparr>) channel (index1 w) (size1 w) timestamp;
       q2 \<leftarrow> (if size2 w > 0 then
               do {
                 buf2 \<leftarrow> copyFrom (m_buffer q1) channel (index2 w) buffer channel
                           (size1 w) (size2 w);
                 fillTimestamps (q1\<lparr>m_buffer := buf2\<rparr>) channel (index2 w) (size2 w)
                   (timestamp + size1 w)
               }
             else Some q1);
       Some ((), q2\<lparr>m_fifos := (m_fifos q2)[nat channel :=
                      finishedWrite ops fifo (size1 w + size2 w)]\<rparr>)
     }"

type_synonym 'f read_state = "'f DataQueue \<times> CircularBufferIndexes list \<times> int list"

definition startRead_chan ::
  "'f fifo_ops \<Rightarrow> int \<Rightarrow> int \<Rightarrow> 'f read_state \<Rightarrow> 'f read_state option" where
  "startRead_chan ops nMax chan st =
     (case st of (q, indexes, timestamps) \<Rightarrow>
      do {
        fifo \<leftarrow> owned_get (m_fifos q) chan;
        let readyToRead = getNumReady ops fifo;
        let samplesToRead = (if readyToRead > nMax \<and> nMax > 0 then nMax else readyToRead);
        let idx = prepareToRead ops fifo samplesToRead;
        let q1 = q\<lparr>m_readSamples := array_set (m_readSamples q) chan (size1 idx + size2 idx)\<rparr>;
        if m_blockSize q = 0 then None
        else
          (let blockMod = index1 idx smod m_blockSize q;
               blockDiff = (if blockMod = 0 then 0 else m_blockSize q - blockMod)
           in if blockDiff < size1 idx + size2 idx then
                (if m_numBlocks q = 0 then None
                 else
                   (let blockIdx = ((index1 idx + blockDiff) sdiv m_blockSize q)
                                     smod m_numBlocks q
                    in do {
                      tbl \<leftarrow> owned_get (m_timestamps q) chan;
                      t \<leftarrow> array_getUnchecked tbl blockIdx;
                      let ts = t - blockDiff;
                      Some (q1\<lparr>m_lastReadTimestamps :=
                               array_set (m_lastReadTimestamps q1) chan
                                 (ts + size1 idx + size2 idx)\<rparr>,
                            indexes @ [idx], timestamps @ [ts])
                    }))
              else
                (let ts = array_get (m_lastReadTimestamps q) chan
                 in Some (q1\<lparr>m_lastReadTimestamps :=
                            array_set (m_lastReadTimestamps q1) chan
                              (ts + size1 idx + size2 idx)\<rparr>,
                          indexes @ [idx], timestamps @ [ts])))
      })"

definition startRead ::
  "'f fifo_ops \<Rightarrow> 'f DataQueue \<Rightarrow> CircularBufferIndexes list \<Rightarrow> int list \<Rightarrow> int
     \<Rightarrow> ((bool \<times> CircularBufferIndexes list \<times> int list) \<times> 'f DataQueue) option" where
  "startRead ops q indexes timestamps nMax =
     (if m_readInProgress q then Some ((False, indexes, timestamps), q)
      else
        do {
          (q1, indexes1, timestamps1) \<leftarrow>
            for_loop (nat (m_numChans q)) (startRead_chan ops nMax)
              (q\<lparr>m_readInProgress := True\<rparr>, [], []);
          Some ((True, indexes1, timestamps1), q1)
        })"

definition stopRead_chan :: "'f fifo_ops \<Rightarrow> int \<Rightarrow> 'f DataQueue \<Rightarrow> 'f DataQueue option" where
  "stopRead_chan ops i q =
     do {
       fifo \<leftarrow> owned_get (m_fifos q) i;
       Some (q\<lparr>
         m_fifos := (m_fifos q)[nat i := finishedRead ops fifo (array_get (m_readSamples q) i)],
         m_readSamples := array_set (m_readSamples q) i 0\<rparr>)
     }"

definition stopRead :: "'f fifo_ops \<Rightarrow> 'f DataQueue \<Rightarrow> (unit \<times> 'f DataQueue) option" where
  "stopRead ops q =
     (if \<not> m_readInProgress q then Some ((), q)
      else
        do {
          q1 \<leftarrow> for_loop (nat (m_numChans q)) (stopRead_chan ops) q;
          Some ((), q1\<lparr>m_readInProgress := False\<rparr>)
        })"

definition getTimestampsForBlock :: "'f DataQueue \<Rightarrow> int \<Rightarrow> int list option" where
  "getTimestampsForBlock q idx =
     for_loop (nat (m_numChans q))
       (\<lambda>chan timestamps. do {
          tbl \<leftarrow> owned_get (m_timestamps q) chan;
          Some (timestamps @ [array_get tbl idx])
        }) []"

subsection \<open>Vocabulary of the properties\<close>

text \<open>
  The shape every queue built by the constructor and the operations has: one allocator, one
  recorded length, one timestamp table, one extrapolation cursor and one row of samples per
  channel.
\<close>

definition wf_shape :: "'f DataQueue \<Rightarrow> bool" where
  "wf_shape q \<longleftrightarrow>
     length (m_fifos q) = nat (m_numChans q) \<and>
     length (m_readSamples q) = nat (m_numChans q) \<and>
     length (m_timestamps q) = nat (m_numChans q) \<and>
     length (m_lastReadTimestamps q) = nat (m_numChans q) \<and>
     length (m_buffer q) = nat (m_numChans q)"

text \<open>
  The sizes every queue built by the constructor, \<^verbatim>\<open>setChannels\<close> and \<^verbatim>\<open>resize\<close> with
  positive block size and ring depth has: the ring holds \<open>numBlocks\<close> blocks, every row of
  the sample store has the ring's capacity and every timestamp table has one slot per block.
\<close>

definition wf_sizes :: "'f DataQueue \<Rightarrow> bool" where
  "wf_sizes q \<longleftrightarrow>
     0 < m_blockSize q \<and> 0 < m_numBlocks q \<and> m_maxSize q = m_blockSize q * m_numBlocks q \<and>
     (\<forall>row \<in> set (m_buffer q). length row = nat (m_maxSize q)) \<and>
     (\<forall>tbl \<in> set (m_timestamps q). length tbl = nat (m_numBlocks q))"

text \<open>
  The distance from a ring index to the next block boundary, 0 when the index is on a
  boundary (\<^verbatim>\<open>blockDiff\<close> in \<^verbatim>\<open>startRead\<close>), and the length \<^verbatim>\<open>startRead\<close> asks the allocator for.
\<close>

definition blockOffset :: "int \<Rightarrow> int \<Rightarrow> int" where
  "blockOffset blockSize index =
     (if index smod blockSize = 0 then 0 else blockSize - index smod blockSize)"

definition samplesToRead :: "'f fifo_ops \<Rightarrow> 'f \<Rightarrow> int \<Rightarrow> int" where
  "samplesToRead ops fifo nMax =
     (if getNumReady ops fifo > nMax \<and> nMax > 0 then nMax else getNumReady ops fifo)"

text \<open>
  The read windows of channel \<open>c\<close>, their total length, the timestamp reconciled for them,
  and the condition under which the lookup in the timestamp table is defined.
\<close>

definition chan_window :: "'f fifo_ops \<Rightarrow> 'f DataQueue \<Rightarrow> int \<Rightarrow> nat \<Rightarrow> CircularBufferIndexes" where
  "chan_window ops q nMax c =
     prepareToRead ops (m_fifos q ! c) (samplesToRead ops (m_fifos q ! c) nMax)"

definition consumed :: "CircularBufferIndexes \<Rightarrow> int" where
  "consumed idx = size1 idx + size2 idx"

definition reconciled :: "'f DataQueue \<Rightarrow> int \<Rightarrow> CircularBufferIndexes \<Rightarrow> int" where
  "reconciled q chan idx =
     (let off = blockOffset (m_blockSize q) (index1 idx)
      in if off < size1 idx + size2 idx
         then (m_timestamps q ! nat chan)
                ! nat (((index1 idx + off) sdiv m_blockSize q) smod m_numBlocks q) - off
         else m_lastReadTimestamps q ! nat chan)"

definition chan_readable :: "'f DataQueue \<Rightarrow> int \<Rightarrow> CircularBufferIndexes \<Rightarrow> bool" where
  "chan_readable q chan idx \<longleftrightarrow>
     m_blockSize q \<noteq> 0 \<and>
     (let off = blockOffset (m_blockSize q) (index1 idx);
          slot = ((index1 idx + off) sdiv m_blockSize q) smod m_numBlocks q
      in off < size1 idx + size2 idx \<longrightarrow>
           m_numBlocks q \<noteq> 0 \<and> 0 \<le> slot \<and> slot < int (length (m_timestamps q ! nat chan)))"

text \<open>
  What the modelled allocator keeps true of its cursors, and the queues all of whose
  allocators have the capacity of the ring.
\<close>

definition af_ok :: "AbstractFifo \<Rightarrow> bool" where
  "af_ok f \<longleftrightarrow>
     0 \<le> validStart f \<and> validStart f < bufferSize f \<and>
     0 \<le> validEnd f \<and> validEnd f < bufferSize f"

definition wf_fifos :: "AbstractFifo DataQueue \<Rightarrow> bool" where
  "wf_fifos q \<longleftrightarrow> (\<forall>f \<in> set (m_fifos q). af_ok f \<and> bufferSize f = m_maxSize q)"

text \<open>Outside a read session no consumed length is recorded.\<close>

definition reads_cleared :: "'f DataQueue \<Rightarrow> bool" where
  "reads_cleared q \<longleftrightarrow>
     (\<not> m_readInProgress q \<longrightarrow>
        (\<forall>chan < nat (m_numChans q). array_get (m_readSamples q) (int chan) = 0))"

text \<open>
  What may happen between two read sessions of a queue that is not reconfigured: calls of
  \<^verbatim>\<open>writeChannel\<close> and of \<^verbatim>\<open>stopRead\<close>, in any order.
\<close>

datatype action = Write AudioSampleBuffer int int int | Stop

fun run_action :: "'f fifo_ops \<Rightarrow> action \<Rightarrow> 'f DataQueue \<Rightarrow> 'f DataQueue option" where
  "run_action ops (Write buffer channel nSamples timestamp) q =
     map_option snd (writeChannel ops q buffer channel nSamples timestamp)"
| "run_action ops Stop q = map_option snd (stopRead ops q)"

fun run_actions :: "'f fifo_ops \<Rightarrow> action list \<Rightarrow> 'f DataQueue \<Rightarrow> 'f DataQueue option" where
  "run_actions ops [] q = Some q"
| "run_actions ops (a # as) q = Option.bind (run_action ops a q) (run_actions ops as)"

subsection \<open>The whole invariant\<close>

text \<open>
  With the modelled allocator, what a read session recorded for a channel is never more
  than the channel holds; together with the shape, the sizes and the state of the
  allocators this is the invariant of the queue.
\<close>

definition reads_bounded :: "AbstractFifo DataQueue \<Rightarrow> bool" where
  "reads_bounded q \<longleftrightarrow>
     (\<forall>c < length (m_fifos q).
        0 \<le> m_readSamples q ! c \<and> m_readSamples q ! c \<le> af_getNumReady (m_fifos q ! c))"

definition wf_queue :: "AbstractFifo DataQueue \<Rightarrow> bool" where
  "wf_queue q \<longleftrightarrow> wf_shape q \<and> wf_sizes q \<and> wf_fifos q \<and> reads_bounded q"

text \<open>
  The state of \<^verbatim>\<open>resize\<close> after its loop has passed the first \<^verbatim>\<open>i\<close> channels.
\<close>

definition resized_upto :: "int \<Rightarrow> int \<Rightarrow> int \<Rightarrow> int \<Rightarrow> nat \<Rightarrow> AbstractFifo DataQueue \<Rightarrow> bool" where
  "resized_upto nChans blockSize wsize nBlocks i q \<longleftrightarrow>
     wf_shape q \<and> m_numChans q = nChans \<and> m_blockSize q = blockSize \<and> m_maxSize q = wsize
     \<and> m_numBlocks q = nBlocks
     \<and> (\<forall>c<i. af_ok (m_fifos q ! c) \<and> bufferSize (m_fifos q ! c) = wsize
            \<and> af_getNumReady (m_fifos q ! c) = 0 \<and> m_readSamples q ! c = 0
            \<and> length (m_timestamps q ! c) = nat nBlocks)"

subsection \<open>Example queues\<close>

text \<open>
  One channel, blocks of 4 samples, a ring of 2 blocks, after four samples stamped 100 were
  written: once idle, and once with the read session opened by \<^verbatim>\<open>startRead\<close>.
\<close>

definition ex_idle :: "AbstractFifo DataQueue" where
  "ex_idle =
     \<lparr>m_buffer = [[1, 2, 3, 4, 0, 0, 0, 0]],
      m_fifos = [\<lparr>bufferSize = 8, validStart = 0, validEnd = 4\<rparr>],
      m_readSamples = [0], m_timestamps = [[100, 0]], m_lastReadTimestamps = [0],
      m_numChans = 1, m_blockSize = 4, m_readInProgress = False, m_numBlocks = 2,
      m_maxSize = 8\<rparr>"

definition ex_open :: "AbstractFifo DataQueue" where
  "ex_open =
     \<lparr>m_buffer = [[1, 2, 3, 4, 0, 0, 0, 0]],
      m_fifos = [\<lparr>bufferSize = 8, validStart = 0, validEnd = 4\<rparr>],
      m_readSamples = [4], m_timestamps = [[100, 0]], m_lastReadTimestamps = [104],
      m_numChans = 1, m_blockSize = 4, m_readInProgress = True, m_numBlocks = 2,
      m_maxSize = 8\<rparr>"

text \<open>
  The same queue after three samples stamped 100 were written and one of them was read:
  the two samples left lie inside the first block. Idle, and with the next session open.
\<close>

definition ex_part :: "AbstractFifo DataQueue" where
  "ex_part =
     \<lparr>m_buffer = [[1, 2, 3, 0, 0, 0, 0, 0]],
      m_fifos = [\<lparr>bufferSize = 8, validStart = 1, validEnd = 3\<rparr>],
      m_readSamples = [0], m_timestamps = [[100, 0]], m_lastReadTimestamps = [101],
      m_numChans = 1, m_blockSize = 4, m_readInProgress = False, m_numBlocks = 2,
      m_maxSize = 8\<rparr>"

definition ex_part_open :: "AbstractFifo DataQueue" where
  "ex_part_open =
     \<lparr>m_buffer = [[1, 2, 3, 0, 0, 0, 0, 0]],
      m_fifos = [\<lparr>bufferSize = 8, validStart = 1, validEnd = 3\<rparr>],
      m_readSamples = [2], m_timestamps = [[100, 0]], m_lastReadTimestamps = [103],
      m_numChans = 1, m_blockSize = 4, m_readInProgress = True, m_numBlocks = 2,
      m_maxSize = 8\<rparr>"

text \<open>
  One channel, blocks of 10 samples, a ring of 2 blocks; three samples were written and
  read, so the next write starts at ring offset 3.
\<close>

definition ex_misaligned :: "AbstractFifo DataQueue" where
  "ex_misaligned =
     \<lparr>m_buffer = [[1, 2, 3, 0, 0, 0, 0, 0, 0, 0, 0, 0, 0, 0, 0, 0, 0, 0, 0, 0]],
      m_fifos = [\<lparr>bufferSize = 20, validStart = 3, validEnd = 3\<rparr>],
      m_readSamples = [0], m_timestamps = [[50, 0]], m_lastReadTimestamps = [53],
      m_numChans = 1, m_blockSize = 10, m_readInProgress = False, m_numBlocks = 2,
      m_maxSize = 20\<rparr>"

text \<open>The open example after \<^verbatim>\<open>stopRead\<close>.\<close>

definition ex_closed :: "AbstractFifo DataQueue" where
  "ex_closed =
     \<lparr>m_buffer = [[1, 2, 3, 4, 0, 0, 0, 0]],
      m_fifos = [\<lparr>bufferSize = 8, validStart = 4, validEnd = 4\<rparr>],
      m_readSamples = [0], m_timestamps = [[100, 0]], m_lastReadTimestamps = [104],
      m_numChans = 1, m_blockSize = 4, m_readInProgress = False, m_numBlocks = 2,
      m_maxSize = 8\<rparr>"

text \<open>
  Three samples stamped 100 written; a session capped at one sample opened; one more sample
  written and the session closed; the next session opened.
\<close>

definition ex_three :: "AbstractFifo DataQueue" where
  "ex_three =
     \<lparr>m_buffer = [[1, 2, 3, 0, 0, 0, 0, 0]],
      m_fifos = [\<lparr>bufferSize = 8, validStart = 0, validEnd = 3\<rparr>],
      m_readSamples = [0], m_timestamps = [[100, 0]], m_lastReadTimestamps = [0],
      m_numChans = 1, m_blockSize = 4, m_readInProgress = False, m_numBlocks = 2,
      m_maxSize = 8\<rparr>"

definition ex_three_open :: "AbstractFifo DataQueue" where
  "ex_three_open =
     \<lparr>m_buffer = [[1, 2, 3, 0, 0, 0, 0, 0]],
      m_fifos = [\<lparr>bufferSize = 8, validStart = 0, validEnd = 3\<rparr>],
      m_readSamples = [1], m_timestamps = [[100, 0]], m_lastReadTimestamps = [101],
      m_numChans = 1, m_blockSize = 4, m_readInProgress = True, m_numBlocks = 2,
      m_maxSize = 8\<rparr>"

definition ex_four :: "AbstractFifo DataQueue" where
  "ex_four =
     \<lparr>m_buffer = [[1, 2, 3, 9, 0, 0, 0, 0]],
      m_fifos = [\<lparr>bufferSize = 8, validStart = 1, validEnd = 4\<rparr>],
      m_readSamples = [0], m_timestamps = [[100, 0]], m_lastReadTimestamps = [101],
      m_numChans = 1, m_blockSize = 4, m_readInProgress = False, m_numBlocks = 2,
      m_maxSize = 8\<rparr>"

definition ex_four_open :: "AbstractFifo DataQueue" where
  "ex_four_open =
     \<lparr>m_buffer = [[1, 2, 3, 9, 0, 0, 0, 0]],
      m_fifos = [\<lparr>bufferSize = 8, validStart = 1, validEnd = 4\<rparr>],
      m_readSamples = [3], m_timestamps = [[100, 0]], m_lastReadTimestamps = [104],
      m_numChans = 1, m_blockSize = 4, m_readInProgress = True, m_numBlocks = 2,
      m_maxSize = 8\<rparr>"

text \<open>
  The idle example after two more samples were written and three samples were read: three
  unread samples at the positions 3 to 5, four free positions; and the same queue after a
  write of six samples was cut to four.
\<close>

definition ex_wrap :: "AbstractFifo DataQueue" where
  "ex_wrap =
     \<lparr>m_buffer = [[1, 2, 3, 4, 5, 6, 0, 0]],
      m_fifos = [\<lparr>bufferSize = 8, validStart = 3, validEnd = 6\<rparr>],
      m_readSamples = [0], m_timestamps = [[100, 104]], m_lastReadTimestamps = [103],
      m_numChans = 1, m_blockSize = 4, m_readInProgress = False, m_numBlocks = 2,
      m_maxSize = 8\<rparr>"

definition ex_wrap_full :: "AbstractFifo DataQueue" where
  "ex_wrap_full =
     \<lparr>m_buffer = [[9, 10, 3, 4, 5, 6, 7, 8]],
      m_fifos = [\<lparr>bufferSize = 8, validStart = 3, validEnd = 2\<rparr>],
      m_readSamples = [0], m_timestamps = [[108, 104]], m_lastReadTimestamps = [103],
      m_numChans = 1, m_blockSize = 4, m_readInProgress = False, m_numBlocks = 2,
      m_maxSize = 8\<rparr>"

text \<open>The example with three unread samples, with the read session open.\<close>

definition ex_wrap_open :: "AbstractFifo DataQueue" where
  "ex_wrap_open =
     \<lparr>m_buffer = [[1, 2, 3, 4, 5, 6, 0, 0]],
      m_fifos = [\<lparr>bufferSize = 8, validStart = 3, validEnd = 6\<rparr>],
      m_readSamples = [3], m_timestamps = [[100, 104]], m_lastReadTimestamps = [106],
      m_numChans = 1, m_blockSize = 4, m_readInProgress = True, m_numBlocks = 2,
      m_maxSize = 8\<rparr>"

section \<open>Basic facts\<close>

lemma for_loop_Suc_Some:
  "for_loop (Suc n) body s = Some s2 \<longleftrightarrow>
     (\<exists>s1. for_loop n body s = Some s1 \<and> body (int n) s1 = Some s2)"
  by (auto simp: bind_eq_Some_conv)

lemma upd_prefix:
  "n < length xs \<Longrightarrow>
     (map f [0..<n] @ drop n xs)[n := f n] = map f [0..<Suc n] @ drop (Suc n) xs"
  by (simp add: list_update_append Cons_nth_drop_Suc[symmetric])

text \<open>
  An invariant of a loop over the channels holds after the loop.
\<close>

lemma for_loop_invariant:
  assumes "for_loop n body s = Some s'" and "P 0 s"
    and "\<And>i s s'. i < n \<Longrightarrow> P i s \<Longrightarrow> body (int i) s = Some s' \<Longrightarrow> P (Suc i) s'"
  shows "P n s'"
  using assms
proof (induction n arbitrary: s')
  case 0
  then show ?case by simp
next
  case (Suc n)
  from Suc.prems(1) obtain s1 where l: "for_loop n body s = Some s1"
    and b: "body (int n) s1 = Some s'"
    by (auto simp: bind_eq_Some_conv)
  have "P n s1"
    using l Suc.prems(2,3) by (intro Suc.IH) auto
  then show ?case
    using b Suc.prems(3) by blast
qed

section \<open>Arithmetic of blocks and rings\<close>

text \<open>
  On the indices a ring hands out, truncating and flooring division agree.
\<close>

lemma sdiv_smod_nonneg:
  "0 \<le> a \<Longrightarrow> 0 < b \<Longrightarrow> a sdiv b = a div b \<and> a smod b = a mod (b::int)"
  by (simp add: signed_divide_int_def signed_modulo_int_def sgn_if)

text \<open>
  \<open>blockOffset\<close> is the distance to the next block boundary, and the block that starts
  there is the block of the index or the next one.
\<close>

lemma blockOffset_next_boundary:
  assumes "0 < bs" and "0 \<le> i"
  shows "0 \<le> blockOffset bs i \<and> blockOffset bs i < bs
       \<and> (i + blockOffset bs i) mod bs = 0
       \<and> (\<forall>d. 0 \<le> d \<and> d < blockOffset bs i \<longrightarrow> (i + d) mod bs \<noteq> 0)"
proof -
  have m: "i smod bs = i mod bs" using assms by (simp add: sdiv_smod_nonneg)
  have r: "0 \<le> i mod bs" "i mod bs < bs" using assms by simp_all
  have "i + (bs - i mod bs) = bs * (1 + i div bs)"
    by (simp add: algebra_simps minus_mod_eq_mult_div[symmetric])
  then have b: "(i + (bs - i mod bs)) mod bs = 0" by simp
  have least: "(i + d) mod bs \<noteq> 0" if "0 \<le> d" "d < blockOffset bs i" for d
  proof -
    from that have nz: "i mod bs \<noteq> 0" and d: "d < bs - i mod bs"
      by (auto simp: blockOffset_def m split: if_splits)
    have "(i + d) mod bs = (i mod bs + d) mod bs" by (simp add: mod_add_left_eq)
    also have "\<dots> = i mod bs + d" using r d that by (intro mod_pos_pos_trivial) auto
    finally show ?thesis using nz r that by auto
  qed
  show ?thesis
    using r b least by (auto simp: blockOffset_def m)
qed

lemma next_block_index:
  assumes "0 < bs" and "0 \<le> index"
  shows "(index + blockOffset bs index) sdiv bs
           = (if index smod bs = 0 then index sdiv bs else index sdiv bs + 1)"
proof -
  have m: "index smod bs = index mod bs" "index sdiv bs = index div bs"
    using assms by (simp_all add: sdiv_smod_nonneg)
  have nn: "0 \<le> index + blockOffset bs index"
    using blockOffset_next_boundary[OF assms] assms(2) by simp
  have d: "(index + blockOffset bs index) sdiv bs = (index + blockOffset bs index) div bs"
    using nn assms(1) by (simp add: sdiv_smod_nonneg)
  show ?thesis
  proof (cases "index mod bs = 0")
    case True
    then show ?thesis by (simp add: d m blockOffset_def)
  next
    case False
    have "index + (bs - index mod bs) = bs * (index div bs + 1)"
      by (simp add: algebra_simps minus_mod_eq_mult_div[symmetric])
    then have "(index + (bs - index mod bs)) div bs = index div bs + 1"
      using assms(1) by simp
    moreover have "blockOffset bs index = bs - index mod bs"
      using False by (simp add: blockOffset_def m)
    ultimately have "(index + blockOffset bs index) sdiv bs = index div bs + 1"
      using d by simp
    then show ?thesis using False by (simp add: m)
  qed
qed

lemma slot_in_range:
  assumes "0 < bs" and "0 < nb" and "0 \<le> (a::int)"
  shows "0 \<le> (a sdiv bs) smod nb \<and> (a sdiv bs) smod nb < nb"
proof -
  have d: "a sdiv bs = a div bs" using assms by (simp add: sdiv_smod_nonneg)
  have "0 \<le> a div bs" using assms by (simp add: pos_imp_zdiv_nonneg_iff)
  then have "(a div bs) smod nb = (a div bs) mod nb"
    using assms by (simp add: sdiv_smod_nonneg)
  then show ?thesis using assms by (simp add: d)
qed

text \<open>
  Positions in a ring of \<open>B\<close> positions, one of which is kept free.
\<close>

lemma ring_mod:
  assumes "0 \<le> a" and "a < 2 * B"
  shows "a mod B = (if a < B then a else a - (B::int))"
proof (cases "a < B")
  case True
  then show ?thesis using assms by simp
next
  case False
  then have "a mod B = (a - B) mod B" by (simp add: mod_diff_right_eq[symmetric])
  also have "\<dots> = a - B" using False assms by (intro mod_pos_pos_trivial) auto
  finally show ?thesis using False by simp
qed

lemma ring_write_position:
  fixes B vs ve i1 s1 s2 G k :: int
  assumes cur: "0 \<le> vs" "vs < B" "0 \<le> ve" "ve < B"
    and G: "G = B - (if vs \<le> ve then ve - vs else B - (vs - ve)) - 1"
    and win: "s1 + s2 = G" "0 \<le> s1" "0 \<le> s2" "i1 + s1 \<le> B"
      "0 < G \<longrightarrow> i1 = ve" "0 < s2 \<longrightarrow> i1 + s1 = B"
    and k: "0 \<le> k" "k < G"
  shows "(ve + k) mod B = (if k < s1 then i1 + k else k - s1)"
proof -
  have i1: "i1 = ve" using win(5) k by simp
  have "ve + k < 2 * B" using k cur G by (simp split: if_splits)
  then have m: "(ve + k) mod B = (if ve + k < B then ve + k else ve + k - B)"
    using cur k by (intro ring_mod) simp_all
  show ?thesis
  proof (cases "k < s1")
    case True
    then have "ve + k < B" using win(4) i1 by simp
    then show ?thesis using m True i1 by simp
  next
    case False
    then have "0 < s2" using k win(1) by simp
    then have e: "ve + s1 = B" using win(6) i1 by simp
    then have "\<not> ve + k < B" using False by simp
    then show ?thesis using m False e by simp
  qed
qed

lemma ring_read_position:
  fixes B vs ve i1 s1 s2 G j :: int
  assumes cur: "0 \<le> vs" "vs < B" "0 \<le> ve" "ve < B"
    and G: "G = B - (if vs \<le> ve then ve - vs else B - (vs - ve)) - 1"
    and win: "s1 + s2 = G" "0 \<le> s1" "0 \<le> s2"
      "0 < G \<longrightarrow> i1 = ve" "0 < s2 \<longrightarrow> vs \<le> ve \<and> s2 < vs"
      "ve < vs \<longrightarrow> i1 + s1 < vs \<or> G = 0"
    and j: "0 \<le> j" "j < (if vs \<le> ve then ve - vs else B - (vs - ve))"
  shows "\<not> (vs + j) mod B < s2 \<and> \<not> (i1 \<le> (vs + j) mod B \<and> (vs + j) mod B < i1 + s1)"
proof -
  let ?p = "(vs + j) mod B"
  have "vs + j < 2 * B" using j cur by (simp split: if_splits)
  then have m: "?p = (if vs + j < B then vs + j else vs + j - B)"
    using cur j by (intro ring_mod) simp_all
  have p0: "0 \<le> ?p" using cur by simp
  have n2: "\<not> ?p < s2"
  proof
    assume a: "?p < s2"
    then have "0 < s2" using p0 by simp
    then have o: "vs \<le> ve" "s2 < vs" using win(5) by simp_all
    then have "vs + j < B" using j cur by simp
    then have "?p = vs + j" using m by simp
    then show False using a o j by simp
  qed
  have n1: "\<not> (i1 \<le> ?p \<and> ?p < i1 + s1)"
  proof
    assume a: "i1 \<le> ?p \<and> ?p < i1 + s1"
    then have "0 < s1" by simp
    then have g0: "0 < G" using win(1,3) by simp
    then have i1: "i1 = ve" using win(4) by simp
    show False
    proof (cases "vs \<le> ve")
      case True
      then have lt: "vs + j < ve" using j by simp
      then have "?p = vs + j" using m cur by simp
      then show False using a i1 lt by simp
    next
      case False
      then have e: "ve + s1 < vs" using win(6) g0 i1 by simp
      show False
      proof (cases "vs + j < B")
        case True
        then have "?p = vs + j" using m by simp
        then show False using a i1 e j by simp
      next
        case ge: False
        then have "?p = vs + j - B" using m by simp
        moreover have "vs + j - B < ve" using j False by simp
        ultimately show False using a i1 by simp
      qed
    qed
  qed
  show ?thesis using n1 n2 by blast
qed

lemma ring_cursor_after:
  fixes B vs ve G :: int
  assumes cur: "0 \<le> vs" "vs < B" "0 \<le> ve" "ve < B"
    and G: "G = B - (if vs \<le> ve then ve - vs else B - (vs - ve)) - 1"
  shows "0 \<le> G" and "G \<le> B"
    and "(if ve + G \<ge> B then ve + G - B else ve + G) = (ve + G) mod B"
    and "(let e = (if ve + G \<ge> B then ve + G - B else ve + G)
          in if e \<ge> vs then e - vs else B - (vs - e))
         = (if vs \<le> ve then ve - vs else B - (vs - ve)) + G"
proof -
  show g0: "0 \<le> G" and "G \<le> B" using cur G by (simp_all split: if_splits)
  have "ve + G < 2 * B" using cur G by (simp split: if_splits)
  then have m: "(ve + G) mod B = (if ve + G < B then ve + G else ve + G - B)"
    using cur g0 by (intro ring_mod) simp_all
  show "(if ve + G \<ge> B then ve + G - B else ve + G) = (ve + G) mod B"
    using m by simp
  show "(let e = (if ve + G \<ge> B then ve + G - B else ve + G)
          in if e \<ge> vs then e - vs else B - (vs - e))
         = (if vs \<le> ve then ve - vs else B - (vs - ve)) + G"
    using cur G by (simp add: Let_def split: if_splits)
qed

section \<open>The modelled allocator\<close>

text \<open>
  Asked for all that is ready, the allocator grants it; asked for more than is free, it
  grants the free space, in a first window at the write cursor and a second one at 0 that
  ends before the read cursor.
\<close>

lemma af_read_all:
  assumes "af_ok f"
  shows "consumed (af_prepareToRead f (af_getNumReady f)) = af_getNumReady f"
    and "0 \<le> index1 (af_prepareToRead f n)"
  using assms
  by (auto simp: af_ok_def af_prepareToRead_def af_getNumReady_def consumed_def Let_def min_def)

lemma af_overflow_window:
  assumes "af_ok f" and "af_getFreeSpace f < n"
  shows "0 \<le> af_getFreeSpace f"
    and "size1 (af_prepareToWrite f n) + size2 (af_prepareToWrite f n) = af_getFreeSpace f"
    and "0 \<le> size1 (af_prepareToWrite f n)" and "0 \<le> size2 (af_prepareToWrite f n)"
    and "0 \<le> index1 (af_prepareToWrite f n)"
    and "index1 (af_prepareToWrite f n) + size1 (af_prepareToWrite f n) \<le> bufferSize f"
    and "index2 (af_prepareToWrite f n) = 0"
    and "size2 (af_prepareToWrite f n) \<le> index1 (af_prepareToWrite f n)"
    and "0 < af_getFreeSpace f \<Longrightarrow> index1 (af_prepareToWrite f n) = validEnd f"
    and "0 < size2 (af_prepareToWrite f n) \<Longrightarrow>
           index1 (af_prepareToWrite f n) + size1 (af_prepareToWrite f n) = bufferSize f"
    and "0 < size2 (af_prepareToWrite f n) \<Longrightarrow> validStart f \<le> validEnd f
           \<and> size2 (af_prepareToWrite f n) < validStart f"
    and "validEnd f < validStart f \<Longrightarrow>
           index1 (af_prepareToWrite f n) + size1 (af_prepareToWrite f n) < validStart f
           \<or> af_getFreeSpace f = 0"
  using assms
  by (auto simp: af_ok_def af_prepareToWrite_def af_getFreeSpace_def af_getNumReady_def
      Let_def min_def split: if_splits)

section \<open>The loops over the channels\<close>

text \<open>
  One round of the loop of \<^verbatim>\<open>startRead\<close> on a channel that exists, and the whole loop in
  closed form: no round touches what another round reads.
\<close>

lemma startRead_chan_eq:
  assumes "0 \<le> chan" "chan < int (length (m_fifos q))" "chan < int (length (m_readSamples q))"
    and "chan < int (length (m_lastReadTimestamps q))" "chan < int (length (m_timestamps q))"
  shows "startRead_chan ops nMax chan (q, is, ts) =
    (if chan_readable q chan (chan_window ops q nMax (nat chan))
     then Some (q\<lparr>m_readSamples :=
                    (m_readSamples q)[nat chan := consumed (chan_window ops q nMax (nat chan))],
                  m_lastReadTimestamps := (m_lastReadTimestamps q)
                    [nat chan := reconciled q chan (chan_window ops q nMax (nat chan))
                                   + consumed (chan_window ops q nMax (nat chan))]\<rparr>,
                is @ [chan_window ops q nMax (nat chan)],
                ts @ [reconciled q chan (chan_window ops q nMax (nat chan))])
     else None)"
proof -
  have rs: "array_set (m_readSamples q) chan v = (m_readSamples q)[nat chan := v]" for v
    using assms by (simp add: array_set_def)
  have ls: "array_set (m_lastReadTimestamps q) chan v = (m_lastReadTimestamps q)[nat chan := v]" for v
    using assms by (simp add: array_set_def)
  have lg: "array_get (m_lastReadTimestamps q) chan = m_lastReadTimestamps q ! nat chan"
    using assms by (simp add: array_get_def)
  have f: "owned_get (m_fifos q) chan = Some (m_fifos q ! nat chan)"
    using assms by (simp add: owned_get_def)
  have t: "owned_get (m_timestamps q) chan = Some (m_timestamps q ! nat chan)"
    using assms by (simp add: owned_get_def)
  show ?thesis
    by (simp add: startRead_chan_def f t rs ls lg Let_def samplesToRead_def[symmetric]
        blockOffset_def[symmetric] reconciled_def chan_readable_def array_getUnchecked_def
        chan_window_def consumed_def add.assoc)
qed

lemma reconciled_cong:
  "m_blockSize q1 = m_blockSize q \<Longrightarrow> m_numBlocks q1 = m_numBlocks q \<Longrightarrow>
   m_timestamps q1 = m_timestamps q \<Longrightarrow>
   m_lastReadTimestamps q1 ! nat chan = m_lastReadTimestamps q ! nat chan \<Longrightarrow>
   reconciled q1 chan idx = reconciled q chan idx"
  by (simp add: reconciled_def Let_def)

lemma startRead_loop:
  assumes "n \<le> length (m_fifos q)" "n \<le> length (m_readSamples q)"
    and "n \<le> length (m_lastReadTimestamps q)" "n \<le> length (m_timestamps q)"
  shows "for_loop n (startRead_chan ops nMax) (q, [], []) =
    (if \<forall>c<n. chan_readable q (int c) (chan_window ops q nMax c)
     then Some (q\<lparr>m_readSamples :=
                    map (\<lambda>c. consumed (chan_window ops q nMax c)) [0..<n] @ drop n (m_readSamples q),
                  m_lastReadTimestamps :=
                    map (\<lambda>c. reconciled q (int c) (chan_window ops q nMax c)
                                + consumed (chan_window ops q nMax c)) [0..<n]
                    @ drop n (m_lastReadTimestamps q)\<rparr>,
                map (chan_window ops q nMax) [0..<n],
                map (\<lambda>c. reconciled q (int c) (chan_window ops q nMax c)) [0..<n])
     else None)"
  using assms
proof (induction n)
  case 0
  then show ?case by simp
next
  case (Suc n)
  let ?w = "chan_window ops q nMax"
  let ?rs = "map (\<lambda>c. consumed (?w c)) [0..<n] @ drop n (m_readSamples q)"
  let ?ls = "map (\<lambda>c. reconciled q (int c) (?w c) + consumed (?w c)) [0..<n]
                    @ drop n (m_lastReadTimestamps q)"
  let ?q1 = "q\<lparr>m_readSamples := ?rs, m_lastReadTimestamps := ?ls\<rparr>"
  show ?case
  proof (cases "\<forall>c<n. chan_readable q (int c) (?w c)")
    case False
    then have "for_loop n (startRead_chan ops nMax) (q, [], []) = None"
      using Suc by simp
    moreover from False have "\<not> (\<forall>c<Suc n. chan_readable q (int c) (?w c))"
      using less_Suc_eq by blast
    ultimately show ?thesis by simp
  next
    case True
    then have l: "for_loop n (startRead_chan ops nMax) (q, [], []) =
        Some (?q1, map ?w [0..<n], map (\<lambda>c. reconciled q (int c) (?w c)) [0..<n])"
      using Suc by simp
    have cw: "chan_window ops ?q1 nMax (nat (int n)) = ?w n"
      by (simp add: chan_window_def)
    have lsn: "?ls ! n = m_lastReadTimestamps q ! n"
      using Suc.prems by (simp add: nth_append)
    have rec: "reconciled ?q1 (int n) idx = reconciled q (int n) idx" for idx
      using lsn by (intro reconciled_cong) simp_all
    have cr: "chan_readable ?q1 (int n) idx = chan_readable q (int n) idx" for idx
      by (simp add: chan_readable_def)
    have s0: "startRead_chan ops nMax (int n)
               (?q1, map ?w [0..<n], map (\<lambda>c. reconciled q (int c) (?w c)) [0..<n]) =
          (if chan_readable ?q1 (int n) (chan_window ops ?q1 nMax (nat (int n)))
           then Some (?q1\<lparr>m_readSamples :=
                    (m_readSamples ?q1)[nat (int n) := consumed (chan_window ops ?q1 nMax (nat (int n)))],
                  m_lastReadTimestamps := (m_lastReadTimestamps ?q1)
                    [nat (int n) := reconciled ?q1 (int n) (chan_window ops ?q1 nMax (nat (int n)))
                                   + consumed (chan_window ops ?q1 nMax (nat (int n)))]\<rparr>,
               map ?w [0..<n] @ [chan_window ops ?q1 nMax (nat (int n))],
               map (\<lambda>c. reconciled q (int c) (?w c)) [0..<n]
                 @ [reconciled ?q1 (int n) (chan_window ops ?q1 nMax (nat (int n)))])
           else None)"
      using Suc.prems by (intro startRead_chan_eq) simp_all
    have s: "startRead_chan ops nMax (int n)
               (?q1, map ?w [0..<n], map (\<lambda>c. reconciled q (int c) (?w c)) [0..<n]) =
          (if chan_readable q (int n) (?w n)
           then Some (?q1\<lparr>m_readSamples := ?rs[n := consumed (?w n)],
                   m_lastReadTimestamps := ?ls[n := reconciled q (int n) (?w n) + consumed (?w n)]\<rparr>,
               map ?w [0..<n] @ [?w n],
               map (\<lambda>c. reconciled q (int c) (?w c)) [0..<n] @ [reconciled q (int n) (?w n)])
           else None)"
      unfolding s0 cw rec cr by simp
    have ur: "?rs[n := consumed (?w n)]
        = map (\<lambda>c. consumed (?w c)) [0..<Suc n] @ drop (Suc n) (m_readSamples q)"
      using Suc.prems by (intro upd_prefix) simp
    have ul: "?ls[n := reconciled q (int n) (?w n) + consumed (?w n)]
        = map (\<lambda>c. reconciled q (int c) (?w c) + consumed (?w c)) [0..<Suc n]
            @ drop (Suc n) (m_lastReadTimestamps q)"
      using Suc.prems by (intro upd_prefix) simp
    show ?thesis
    proof (cases "chan_readable q (int n) (?w n)")
      case False
      then have "\<not> (\<forall>c<Suc n. chan_readable q (int c) (?w c))" by blast
      with False show ?thesis by (simp add: l s del: upt_Suc)
    next
      case r: True
      with True have "\<forall>c<Suc n. chan_readable q (int c) (?w c)"
        using less_Suc_eq by auto
      with r show ?thesis
        by (simp add: l s ur ul del: upt_Suc) simp
    qed
  qed
qed

lemma startRead_idle:
  assumes "\<not> m_readInProgress q" and "wf_shape q"
  shows "startRead ops q is0 ts0 nMax =
    (if \<forall>c<nat (m_numChans q). chan_readable q (int c) (chan_window ops q nMax c)
     then Some ((True,
                 map (chan_window ops q nMax) [0..<nat (m_numChans q)],
                 map (\<lambda>c. reconciled q (int c) (chan_window ops q nMax c)) [0..<nat (m_numChans q)]),
                q\<lparr>m_readInProgress := True,
                  m_readSamples :=
                    map (\<lambda>c. consumed (chan_window ops q nMax c)) [0..<nat (m_numChans q)],
                  m_lastReadTimestamps :=
                    map (\<lambda>c. reconciled q (int c) (chan_window ops q nMax c)
                                + consumed (chan_window ops q nMax c)) [0..<nat (m_numChans q)]\<rparr>)
     else None)"
proof -
  let ?q = "q\<lparr>m_readInProgress := True\<rparr>"
  have cw: "chan_window ops ?q nMax = chan_window ops q nMax"
    by (rule ext) (simp add: chan_window_def)
  have rc: "reconciled ?q = reconciled q"
    by (intro ext) (simp add: reconciled_def Let_def)
  have cr: "chan_readable ?q = chan_readable q"
    by (intro ext) (simp add: chan_readable_def Let_def)
  have "for_loop (nat (m_numChans q)) (startRead_chan ops nMax) (?q, [], []) =
    (if \<forall>c<nat (m_numChans q). chan_readable ?q (int c) (chan_window ops ?q nMax c)
     then Some (?q\<lparr>m_readSamples :=
                    map (\<lambda>c. consumed (chan_window ops ?q nMax c)) [0..<nat (m_numChans q)]
                      @ drop (nat (m_numChans q)) (m_readSamples ?q),
                  m_lastReadTimestamps :=
                    map (\<lambda>c. reconciled ?q (int c) (chan_window ops ?q nMax c)
                                + consumed (chan_window ops ?q nMax c)) [0..<nat (m_numChans q)]
                    @ drop (nat (m_numChans q)) (m_lastReadTimestamps ?q)\<rparr>,
                map (chan_window ops ?q nMax) [0..<nat (m_numChans q)],
                map (\<lambda>c. reconciled ?q (int c) (chan_window ops ?q nMax c)) [0..<nat (m_numChans q)])
     else None)"
    using assms(2) by (intro startRead_loop) (simp_all add: wf_shape_def)
  then show ?thesis
    using assms by (simp add: startRead_def cw rc cr wf_shape_def)
qed

lemma startRead_after:
  assumes "startRead ops q is0 ts0 nMax = Some ((True, idxs, tss), q')"
    and "wf_shape q" and "0 \<le> chan" and "chan < m_numChans q"
  shows "wf_shape q' \<and> m_numChans q' = m_numChans q
       \<and> m_lastReadTimestamps q' ! nat chan = tss ! nat chan + consumed (idxs ! nat chan)
       \<and> (\<not> blockOffset (m_blockSize q) (index1 (idxs ! nat chan)) < consumed (idxs ! nat chan)
            \<longrightarrow> tss ! nat chan = m_lastReadTimestamps q ! nat chan)"
proof -
  from assms(1) have idle: "\<not> m_readInProgress q"
    by (auto simp: startRead_def)
  let ?n = "nat (m_numChans q)"
  let ?w = "chan_window ops q nMax"
  from assms(1) have idxs: "idxs = map ?w [0..<?n]"
    and tss: "tss = map (\<lambda>c. reconciled q (int c) (?w c)) [0..<?n]"
    and q': "q' = q\<lparr>m_readInProgress := True,
                  m_readSamples := map (\<lambda>c. consumed (?w c)) [0..<?n],
                  m_lastReadTimestamps :=
                    map (\<lambda>c. reconciled q (int c) (?w c) + consumed (?w c)) [0..<?n]\<rparr>"
    by (auto simp: startRead_idle[OF idle assms(2)] split: if_splits)
  have c: "nat chan < ?n" using assms(3,4) by simp
  show ?thesis
    using c assms(2,3)
    by (simp add: q' idxs tss wf_shape_def reconciled_def consumed_def Let_def)
qed

text \<open>
  A cap that is not positive is no cap.
\<close>

lemma samplesToRead_no_cap: "nMax \<le> 0 \<Longrightarrow> samplesToRead ops f nMax = getNumReady ops f"
  by (simp add: samplesToRead_def)

lemma startRead_chan_no_cap:
  "nMax \<le> 0 \<Longrightarrow> startRead_chan ops nMax chan st = startRead_chan ops 0 chan st"
  by (cases st) (simp add: startRead_chan_def)

lemma startRead_no_cap:
  assumes "nMax \<le> 0"
  shows "startRead ops q is0 ts0 nMax = startRead ops q is0 ts0 0"
proof -
  have "startRead_chan ops nMax = startRead_chan ops 0"
    using assms by (intro ext) (rule startRead_chan_no_cap)
  then show ?thesis by (simp add: startRead_def)
qed

text \<open>
  On a queue of the right sizes, the table lookup of a read is defined.
\<close>

lemma chan_readable_wf:
  assumes "wf_sizes q" and "nat chan < length (m_timestamps q)" and "0 \<le> index1 idx"
  shows "chan_readable q chan idx"
proof -
  have bs: "0 < m_blockSize q" and nb: "0 < m_numBlocks q"
    using assms(1) by (simp_all add: wf_sizes_def)
  have len: "length (m_timestamps q ! nat chan) = nat (m_numBlocks q)"
    using assms(1,2) by (simp add: wf_sizes_def)
  have "0 \<le> blockOffset (m_blockSize q) (index1 idx)"
    using blockOffset_next_boundary[OF bs assms(3)] by simp
  then have "0 \<le> index1 idx + blockOffset (m_blockSize q) (index1 idx)"
    using assms(3) by simp
  from slot_in_range[OF bs nb this] show ?thesis
    using bs nb len by (simp add: chan_readable_def Let_def)
qed

text \<open>
  The loop of \<^verbatim>\<open>startRead\<close> keeps the flag it has set.
\<close>

lemma startRead_chan_flag:
  "startRead_chan ops nMax chan (q, is, ts) = Some (q', is', ts') \<Longrightarrow>
     m_readInProgress q' = m_readInProgress q"
  by (auto simp: startRead_chan_def Let_def bind_eq_Some_conv split: if_splits)

lemma startRead_loop_flag:
  assumes "for_loop n (startRead_chan ops nMax) (q, is, ts) = Some (q', is', ts')"
  shows "m_readInProgress q' = m_readInProgress q"
proof -
  have "(\<lambda>i st. m_readInProgress (fst st) = m_readInProgress q) n (q', is', ts')"
  proof (rule for_loop_invariant[OF assms])
    show "m_readInProgress (fst (q, is, ts)) = m_readInProgress q" by simp
  next
    fix i :: nat and s s' :: "'a read_state"
    assume "m_readInProgress (fst s) = m_readInProgress q"
      and "startRead_chan ops nMax (int i) s = Some s'"
    then show "m_readInProgress (fst s') = m_readInProgress q"
      using startRead_chan_flag[of ops nMax "int i" "fst s" "fst (snd s)" "snd (snd s)"
          "fst s'" "fst (snd s')" "snd (snd s')"]
      by simp
  qed
  then show ?thesis by simp
qed

text \<open>
  The loop of \<^verbatim>\<open>stopRead\<close> in closed form.
\<close>

lemma stopRead_chan_in_range:
  "0 \<le> i \<Longrightarrow> i < int (length (m_fifos q)) \<Longrightarrow> i < int (length (m_readSamples q)) \<Longrightarrow>
   stopRead_chan ops i q = Some (q\<lparr>
         m_fifos := (m_fifos q)[nat i := finishedRead ops (m_fifos q ! nat i) (m_readSamples q ! nat i)],
         m_readSamples := (m_readSamples q)[nat i := 0]\<rparr>)"
  by (simp add: stopRead_chan_def owned_get_def array_get_def array_set_def)

lemma stopRead_loop:
  "n \<le> length (m_fifos q) \<Longrightarrow> n \<le> length (m_readSamples q) \<Longrightarrow>
   for_loop n (stopRead_chan ops) q = Some (q\<lparr>
      m_fifos := map2 (finishedRead ops) (take n (m_fifos q)) (take n (m_readSamples q)) @ drop n (m_fifos q),
      m_readSamples := replicate n 0 @ drop n (m_readSamples q)\<rparr>)"
proof (induction n)
  case 0
  then show ?case by simp
next
  case (Suc n)
  let ?q1 = "q\<lparr>
      m_fifos := map2 (finishedRead ops) (take n (m_fifos q)) (take n (m_readSamples q)) @ drop n (m_fifos q),
      m_readSamples := replicate n 0 @ drop n (m_readSamples q)\<rparr>"
  have l: "for_loop n (stopRead_chan ops) q = Some ?q1" using Suc by simp
  have s: "stopRead_chan ops (int n) ?q1 = Some (?q1\<lparr>
         m_fifos := (m_fifos ?q1)[nat (int n) := finishedRead ops (m_fifos ?q1 ! nat (int n)) (m_readSamples ?q1 ! nat (int n))],
         m_readSamples := (m_readSamples ?q1)[nat (int n) := 0]\<rparr>)"
    using Suc.prems by (intro stopRead_chan_in_range) auto
  have f: "(m_fifos ?q1)[n := finishedRead ops (m_fifos ?q1 ! n) (m_readSamples ?q1 ! n)]
      = map2 (finishedRead ops) (take (Suc n) (m_fifos q)) (take (Suc n) (m_readSamples q)) @ drop (Suc n) (m_fifos q)"
    using Suc.prems
    by (simp add: take_Suc_conv_app_nth nth_append list_update_append Cons_nth_drop_Suc[symmetric] min_def)
  have r: "(m_readSamples ?q1)[n := 0] = replicate (Suc n) 0 @ drop (Suc n) (m_readSamples q)"
    using Suc.prems
    by (simp add: list_update_append Cons_nth_drop_Suc[symmetric] replicate_append_same)
  show ?case
    using f r by (simp add: l s)
qed

lemma stopRead_open:
  assumes "m_readInProgress q" and "wf_shape q"
  shows "stopRead ops q = Some ((), q\<lparr>
            m_fifos := map2 (finishedRead ops) (m_fifos q) (m_readSamples q),
            m_readSamples := replicate (nat (m_numChans q)) 0,
            m_readInProgress := False\<rparr>)"
  using assms stopRead_loop[of "nat (m_numChans q)" q ops]
  by (simp add: stopRead_def wf_shape_def)

text \<open>
  The loops of \<^verbatim>\<open>resize\<close> and \<^verbatim>\<open>stopRead\<close> reset the recorded length of every channel,
  whatever the length of the array.
\<close>

lemma array_set_zero_prefix:
  assumes "\<forall>c<i. array_get xs (int c) = 0"
  shows "\<forall>c<Suc i. array_get (array_set xs (int i) 0) (int c) = 0"
proof (intro allI impI)
  fix c assume c: "c < Suc i"
  show "array_get (array_set xs (int i) 0) (int c) = 0"
  proof (cases "c = i")
    case True
    then show ?thesis
      by (auto simp: array_get_def array_set_def nth_append)
  next
    case False
    with c have lt: "c < i" by simp
    with assms have z: "array_get xs (int c) = 0" by blast
    show ?thesis
      using z lt
      by (auto simp: array_get_def array_set_def nth_append nth_list_update split: if_splits)
  qed
qed

lemma resize_chan_fields:
  "resize_chan ops wsize nBlocks i q = Some q' \<Longrightarrow>
     m_readSamples q' = array_set (m_readSamples q) i 0 \<and> m_numChans q' = m_numChans q
     \<and> m_readInProgress q' = m_readInProgress q"
  by (auto simp: resize_chan_def bind_eq_Some_conv)

lemma stopRead_chan_fields:
  "stopRead_chan ops i q = Some q' \<Longrightarrow>
     m_readSamples q' = array_set (m_readSamples q) i 0 \<and> m_numChans q' = m_numChans q
     \<and> m_readInProgress q' = m_readInProgress q"
  by (auto simp: stopRead_chan_def bind_eq_Some_conv)

lemma clearing_loop:
  assumes "for_loop n body q = Some q'"
    and "\<And>i q q'. body i q = Some q' \<Longrightarrow>
           m_readSamples q' = array_set (m_readSamples q) i 0 \<and> m_numChans q' = m_numChans q
           \<and> m_readInProgress q' = m_readInProgress q"
  shows "m_numChans q' = m_numChans q \<and> m_readInProgress q' = m_readInProgress q
     \<and> (\<forall>c<n. array_get (m_readSamples q') (int c) = 0)"
proof (rule for_loop_invariant[OF assms(1), where
        P = "\<lambda>i q1. m_numChans q1 = m_numChans q \<and> m_readInProgress q1 = m_readInProgress q
               \<and> (\<forall>c<i. array_get (m_readSamples q1) (int c) = 0)"])
  show "m_numChans q = m_numChans q \<and> m_readInProgress q = m_readInProgress q
     \<and> (\<forall>c<0. array_get (m_readSamples q) (int c) = 0)" by simp
next
  fix i q1 q2
  assume p: "m_numChans q1 = m_numChans q \<and> m_readInProgress q1 = m_readInProgress q
               \<and> (\<forall>c<i. array_get (m_readSamples q1) (int c) = 0)"
    and b: "body (int i) q1 = Some q2"
  from assms(2)[OF b] have e: "m_readSamples q2 = array_set (m_readSamples q1) (int i) 0"
    "m_numChans q2 = m_numChans q1" "m_readInProgress q2 = m_readInProgress q1" by auto
  from p have "\<forall>c<i. array_get (m_readSamples q1) (int c) = 0" by blast
  from array_set_zero_prefix[OF this]
  show "m_numChans q2 = m_numChans q \<and> m_readInProgress q2 = m_readInProgress q
               \<and> (\<forall>c<Suc i. array_get (m_readSamples q2) (int c) = 0)"
    using p e by simp
qed

section \<open>Stamping a window\<close>

text \<open>
  The loop of \<^verbatim>\<open>fillTimestamps\<close> ends when the block size is positive, and runs once on a
  window of at most one block.
\<close>

lemma fillTimestamps_loop_terminates:
  assumes "0 < bs"
  shows "\<exists>tbl'. fillTimestamps_loop bs index wsize st bsp bidx i (Some tbl) = Some (Some tbl')"
proof (induction "nat (wsize - i)" arbitrary: i tbl rule: less_induct)
  case less
  show ?case
  proof (cases "i < wsize")
    case False
    then show ?thesis by (subst fillTimestamps_loop.simps) simp
  next
    case True
    with assms have "nat (wsize - (i + bs)) < nat (wsize - i)" by simp
    from less[OF this] show ?thesis
      using True by (subst fillTimestamps_loop.simps) simp
  qed
qed

lemma fillTimestamps_loop_once:
  assumes "0 < wsize" and "wsize \<le> bs"
  shows "fillTimestamps_loop bs index wsize st bsp bidx 0 (Some tbl) =
           Some (Some (if bsp < index + wsize then array_set tbl bidx st else tbl))"
proof -
  have "fillTimestamps_loop bs index wsize st bsp bidx 0 (Some tbl) =
      fillTimestamps_loop bs index wsize st bsp bidx bs
        (Some (if bsp < index + wsize then array_set tbl bidx st else tbl))"
    using assms by (subst fillTimestamps_loop.simps) simp
  also have "\<dots> = Some (Some (if bsp < index + wsize then array_set tbl bidx st else tbl))"
    using assms by (subst fillTimestamps_loop.simps) simp
  finally show ?thesis .
qed

lemma fillTimestamps_Some:
  assumes "0 < m_blockSize q" and "0 \<le> channel" and "channel < int (length (m_timestamps q))"
  shows "\<exists>tss. fillTimestamps q channel index wsize timestamp = Some (q\<lparr>m_timestamps := tss\<rparr>)"
proof -
  let ?bm = "index smod m_blockSize q"
  from fillTimestamps_loop_terminates[OF assms(1)]
  obtain tbl' where "fillTimestamps_loop (m_blockSize q) index wsize
      (if ?bm = 0 then timestamp else timestamp + (m_blockSize q - ?bm))
      (if ?bm = 0 then index else index + (m_blockSize q - ?bm))
      (if ?bm = 0 then index sdiv m_blockSize q else index sdiv m_blockSize q + 1)
      0 (Some (m_timestamps q ! nat channel)) = Some (Some tbl')"
    by blast
  then have "fillTimestamps q channel index wsize timestamp
      = Some (q\<lparr>m_timestamps := (m_timestamps q)[nat channel := tbl']\<rparr>)"
    using assms by (simp add: fillTimestamps_def owned_get_def Let_def)
  then show ?thesis by blast
qed

lemma fillTimestamps_shape:
  assumes "fillTimestamps q channel index wsize timestamp = Some q'"
  shows "\<exists>tss. q' = q\<lparr>m_timestamps := tss\<rparr> \<and> length tss = length (m_timestamps q)"
proof -
  from assms obtain table where
    q': "q' = (case table of
                 None \<Rightarrow> q
               | Some tbl \<Rightarrow> q\<lparr>m_timestamps := (m_timestamps q)[nat channel := tbl]\<rparr>)"
    by (auto simp: fillTimestamps_def Let_def bind_eq_Some_conv split: if_splits)
  show ?thesis
  proof (cases table)
    case None
    then have "q' = q\<lparr>m_timestamps := m_timestamps q\<rparr>" using q' by simp
    then show ?thesis by blast
  next
    case (Some tbl)
    then have "q' = q\<lparr>m_timestamps := (m_timestamps q)[nat channel := tbl]\<rparr>"
      using q' by simp
    moreover have "length ((m_timestamps q)[nat channel := tbl]) = length (m_timestamps q)"
      by simp
    ultimately show ?thesis by blast
  qed
qed

text \<open>
  Whatever the window, the loop writes to one slot of the table only, the slot of the first
  block start: \<^verbatim>\<open>blockIdx\<close> is not advanced with \<^verbatim>\<open>i\<close>.
\<close>

lemma fillTimestamps_loop_one_slot:
  assumes "0 < bs" and "0 \<le> bidx" and "bidx < int (length tbl)"
  shows "\<exists>v. fillTimestamps_loop bs index wsize st bsp bidx i (Some tbl)
              = Some (Some (tbl[nat bidx := v]))"
  using assms(3)
proof (induction "nat (wsize - i)" arbitrary: i tbl rule: less_induct)
  case less
  show ?case
  proof (cases "i < wsize")
    case False
    then have "fillTimestamps_loop bs index wsize st bsp bidx i (Some tbl)
        = Some (Some (tbl[nat bidx := tbl ! nat bidx]))"
      by (subst fillTimestamps_loop.simps) simp
    then show ?thesis by blast
  next
    case True
    let ?tbl1 = "if bsp + i < index + wsize then array_set tbl bidx (st + i * bs) else tbl"
    have t1: "?tbl1 = tbl[nat bidx := ?tbl1 ! nat bidx]"
      using assms(2) less.prems by (simp add: array_set_def)
    have l1: "bidx < int (length ?tbl1)"
      using assms(2) less.prems by (simp add: array_set_def)
    from True assms have "nat (wsize - (i + bs)) < nat (wsize - i)" by simp
    from less.hyps[OF this l1] obtain v where
      "fillTimestamps_loop bs index wsize st bsp bidx (i + bs) (Some ?tbl1)
         = Some (Some (?tbl1[nat bidx := v]))"
      by blast
    moreover have "?tbl1[nat bidx := v] = tbl[nat bidx := v]"
      by (subst t1) simp
    ultimately have "fillTimestamps_loop bs index wsize st bsp bidx i (Some tbl)
        = Some (Some (tbl[nat bidx := v]))"
      using True by (subst fillTimestamps_loop.simps) (simp split: if_splits)
    then show ?thesis by blast
  qed
qed

text \<open>
  A window that covers exactly one block start is stamped as intended: the slot of that
  block receives the timestamp of the sample at the block start. (The slot is below the
  length of the table, so reducing it modulo the number of blocks changes nothing.)
\<close>

lemma fillTimestamps_loop_no_start:
  assumes "0 < bs" and "index + wsize \<le> bsp + i"
  shows "fillTimestamps_loop bs index wsize st bsp bidx i table = Some table"
  using assms(2)
proof (induction "nat (wsize - i)" arbitrary: i rule: less_induct)
  case less
  show ?case
  proof (cases "i < wsize")
    case False
    then show ?thesis by (subst fillTimestamps_loop.simps) simp
  next
    case True
    with assms(1) have "nat (wsize - (i + bs)) < nat (wsize - i)" by simp
    moreover have "index + wsize \<le> bsp + (i + bs)" using less.prems assms(1) by simp
    ultimately have "fillTimestamps_loop bs index wsize st bsp bidx (i + bs) table = Some table"
      by (rule less.hyps)
    then show ?thesis
      using True less.prems by (subst fillTimestamps_loop.simps) simp
  qed
qed

lemma fillTimestamps_one_start:
  assumes "0 < m_blockSize q" and "0 \<le> index"
    and "0 \<le> channel" and "channel < int (length (m_timestamps q))"
    and "blockOffset (m_blockSize q) index < wsize"
    and "wsize \<le> blockOffset (m_blockSize q) index + m_blockSize q"
    and "(index + blockOffset (m_blockSize q) index) sdiv m_blockSize q
           < int (length (m_timestamps q ! nat channel))"
  shows "fillTimestamps q channel index wsize timestamp =
     Some (q\<lparr>m_timestamps := (m_timestamps q)[nat channel :=
        (m_timestamps q ! nat channel)
          [nat ((index + blockOffset (m_blockSize q) index) sdiv m_blockSize q)
             := timestamp + blockOffset (m_blockSize q) index]]\<rparr>)"
proof -
  let ?bs = "m_blockSize q"
  let ?off = "blockOffset ?bs index"
  let ?tbl = "m_timestamps q ! nat channel"
  let ?slot = "(index + ?off) sdiv ?bs"
  let ?st = "timestamp + ?off"
  let ?bsp = "index + ?off"
  have off0: "0 \<le> ?off" using blockOffset_next_boundary[OF assms(1,2)] by simp
  have slot0: "0 \<le> ?slot"
    using off0 assms(1,2) by (simp add: sdiv_smod_nonneg pos_imp_zdiv_nonneg_iff)
  have ws: "0 < wsize" using off0 assms(5) by simp
  have "fillTimestamps_loop ?bs index wsize ?st ?bsp ?slot 0 (Some ?tbl)
      = fillTimestamps_loop ?bs index wsize ?st ?bsp ?slot ?bs (Some (array_set ?tbl ?slot ?st))"
    using ws assms(5) by (subst fillTimestamps_loop.simps) simp
  also have "\<dots> = Some (Some (array_set ?tbl ?slot ?st))"
    using assms(1,6) by (intro fillTimestamps_loop_no_start) simp_all
  also have "array_set ?tbl ?slot ?st = ?tbl[nat ?slot := ?st]"
    using slot0 assms(7) by (simp add: array_set_def)
  finally have loop: "fillTimestamps_loop ?bs index wsize ?st ?bsp ?slot 0 (Some ?tbl)
      = Some (Some (?tbl[nat ?slot := ?st]))" .
  have e1: "(if index smod ?bs = 0 then timestamp else timestamp + (?bs - index smod ?bs)) = ?st"
    by (simp add: blockOffset_def)
  have e2: "(if index smod ?bs = 0 then index else index + (?bs - index smod ?bs)) = ?bsp"
    by (simp add: blockOffset_def)
  have e3: "(if index smod ?bs = 0 then index sdiv ?bs else index sdiv ?bs + 1) = ?slot"
    using next_block_index[OF assms(1,2)] by simp
  have t: "owned_get (m_timestamps q) channel = Some ?tbl"
    using assms(3,4) by (simp add: owned_get_def)
  show ?thesis
    using assms(1) unfolding fillTimestamps_def Let_def e1 e2 e3 t
    by (simp add: loop)
qed

section \<open>Copying a window\<close>

text \<open>
  What \<^verbatim>\<open>copyFrom\<close> does to a row, and what a write does to the row of its channel: the two
  windows are filled from the source, first window first.
\<close>

lemma copyFrom_in_range:
  assumes "0 \<le> ch" "ch < int (length dest)" "ch < int (length src)"
    and "0 \<le> ds" "0 < n" "ds + n \<le> int (length (dest ! nat ch))"
    and "0 \<le> ss" "ss + n \<le> int (length (src ! nat ch))"
  shows "copyFrom dest ch ds src ch ss n =
     Some (dest[nat ch := copy_samples (dest ! nat ch) (nat ds) (src ! nat ch) (nat ss) (nat n)])"
  using assms by (simp add: copyFrom_def owned_get_def)

lemma copyFrom_length:
  "copyFrom dest dc ds src sc ss n = Some dest' \<Longrightarrow> length dest' = length dest"
  by (auto simp: copyFrom_def bind_eq_Some_conv split: if_splits)

lemma length_copy_samples:
  "ds + n \<le> length dest \<Longrightarrow> ss + n \<le> length src \<Longrightarrow>
     length (copy_samples dest ds src ss n) = length dest"
  by (simp add: copy_samples_def)

lemma nth_copy_samples:
  assumes "ds + n \<le> length dest" and "ss + n \<le> length src" and "p < length dest"
  shows "copy_samples dest ds src ss n ! p
           = (if ds \<le> p \<and> p < ds + n then src ! (ss + (p - ds)) else dest ! p)"
proof -
  let ?a = "take ds dest" and ?b = "take n (drop ss src)" and ?c = "drop (ds + n) dest"
  have l1: "length ?a = ds" using assms(1) by simp
  have l2: "length ?b = n" using assms(2) by simp
  have cs: "copy_samples dest ds src ss n = ?a @ ?b @ ?c" by (simp add: copy_samples_def)
  consider "p < ds" | "ds \<le> p" "p < ds + n" | "ds + n \<le> p" by linarith
  then show ?thesis
  proof cases
    case 1
    then have "(?a @ ?b @ ?c) ! p = ?a ! p" using l1 by (simp add: nth_append)
    also have "\<dots> = dest ! p" using 1 by simp
    finally show ?thesis using 1 by (simp add: cs)
  next
    case 2
    then have lt: "p - ds < n" by linarith
    have "(?a @ ?b @ ?c) ! p = (?b @ ?c) ! (p - ds)"
      using 2 l1 by (simp add: nth_append)
    also have "\<dots> = ?b ! (p - ds)" using lt l2 by (simp add: nth_append)
    also have "\<dots> = src ! (ss + (p - ds))" using lt assms(2) by simp
    finally show ?thesis using 2 by (simp add: cs)
  next
    case 3
    have "(?a @ ?b @ ?c) ! p = (?b @ ?c) ! (p - ds)"
      using 3 l1 by (simp add: nth_append)
    also have "\<dots> = ?c ! (p - ds - n)" using 3 l2 by (simp add: nth_append)
    also have "\<dots> = dest ! (ds + n + (p - ds - n))" using assms(1) by simp
    also have "ds + n + (p - ds - n) = p" using 3 by simp
    finally show ?thesis using 3 by (simp add: cs)
  qed
qed

lemma copy_samples_none: "copy_samples dest ds src ss 0 = dest"
  by (simp add: copy_samples_def)

lemma two_window_row:
  assumes "0 \<le> a" and "0 \<le> s1" and "0 \<le> s2" and "a + s1 \<le> int (length row)"
    and "s2 \<le> a" and "s1 + s2 \<le> int (length src)" and "0 \<le> p" and "p < int (length row)"
  shows "copy_samples (copy_samples row (nat a) src 0 (nat s1)) 0 src (nat s1) (nat s2) ! nat p
     = (if p < s2 then src ! nat (s1 + p)
        else if a \<le> p \<and> p < a + s1 then src ! nat (p - a)
        else row ! nat p)"
proof -
  let ?row1 = "copy_samples row (nat a) src 0 (nat s1)"
  have b1: "nat a + nat s1 \<le> length row" using assms by linarith
  have c1: "0 + nat s1 \<le> length src" using assms by linarith
  have l1: "length ?row1 = length row" by (rule length_copy_samples[OF b1 c1])
  have b2: "0 + nat s2 \<le> length ?row1" using assms l1 by linarith
  have c2: "nat s1 + nat s2 \<le> length src" using assms by linarith
  have p: "nat p < length row" using assms by linarith
  have one: "?row1 ! nat p
      = (if nat a \<le> nat p \<and> nat p < nat a + nat s1 then src ! (0 + (nat p - nat a)) else row ! nat p)"
    by (rule nth_copy_samples[OF b1 c1 p])
  have two: "copy_samples ?row1 0 src (nat s1) (nat s2) ! nat p
      = (if 0 \<le> nat p \<and> nat p < 0 + nat s2 then src ! (nat s1 + (nat p - 0)) else ?row1 ! nat p)"
    using p l1 by (intro nth_copy_samples[OF b2 c2]) simp
  let ?lhs = "copy_samples ?row1 0 src (nat s1) (nat s2) ! nat p"
  let ?rhs = "if p < s2 then src ! nat (s1 + p)
        else if a \<le> p \<and> p < a + s1 then src ! nat (p - a)
        else row ! nat p"
  consider "p < s2" | "\<not> p < s2" "a \<le> p \<and> p < a + s1" | "\<not> p < s2" "\<not> (a \<le> p \<and> p < a + s1)"
    by blast
  then have "?lhs = ?rhs"
  proof cases
    case 1
    then have A: "0 \<le> nat p \<and> nat p < 0 + nat s2" using assms by linarith
    have e: "nat s1 + (nat p - 0) = nat (s1 + p)" using assms by linarith
    have "?lhs = src ! (nat s1 + (nat p - 0))" unfolding two if_P[OF A] ..
    also have "\<dots> = src ! nat (s1 + p)" unfolding e ..
    also have "\<dots> = ?rhs" using 1 by simp
    finally show ?thesis .
  next
    case 2
    then have A: "\<not> (0 \<le> nat p \<and> nat p < 0 + nat s2)" using assms by linarith
    have B: "nat a \<le> nat p \<and> nat p < nat a + nat s1" using 2 assms by linarith
    have e: "0 + (nat p - nat a) = nat (p - a)" using 2 assms by linarith
    have "?lhs = ?row1 ! nat p" unfolding two if_not_P[OF A] ..
    also have "\<dots> = src ! (0 + (nat p - nat a))" unfolding one if_P[OF B] ..
    also have "\<dots> = src ! nat (p - a)" unfolding e ..
    also have "\<dots> = ?rhs" using 2 by simp
    finally show ?thesis .
  next
    case 3
    then have A: "\<not> (0 \<le> nat p \<and> nat p < 0 + nat s2)" using assms by linarith
    have B: "\<not> (nat a \<le> nat p \<and> nat p < nat a + nat s1)" using 3 assms by linarith
    have "?lhs = ?row1 ! nat p" unfolding two if_not_P[OF A] ..
    also have "\<dots> = row ! nat p" unfolding one if_not_P[OF B] ..
    also have "\<dots> = ?rhs" using 3 by auto
    finally show ?thesis .
  qed
  then show ?thesis .
qed

lemma writeChannel_shape:
  assumes "writeChannel ops q buffer channel nSamples timestamp = Some (u, q')"
  shows "\<exists>b tss fs. q' = q\<lparr>m_buffer := b, m_timestamps := tss, m_fifos := fs\<rparr>
           \<and> length b = length (m_buffer q) \<and> length tss = length (m_timestamps q)
           \<and> length fs = length (m_fifos q)"
proof -
  from assms obtain fifo buf1 q1 q2 where
    f: "owned_get (m_fifos q) channel = Some fifo"
    and b1: "copyFrom (m_buffer q) channel (index1 (prepareToWrite ops fifo nSamples)) buffer channel 0
               (size1 (prepareToWrite ops fifo nSamples)) = Some buf1"
    and q1: "fillTimestamps (q\<lparr>m_buffer := buf1\<rparr>) channel
               (index1 (prepareToWrite ops fifo nSamples)) (size1 (prepareToWrite ops fifo nSamples))
               timestamp = Some q1"
    and q2: "(if size2 (prepareToWrite ops fifo nSamples) > 0 then
               do {
                 buf2 \<leftarrow> copyFrom (m_buffer q1) channel (index2 (prepareToWrite ops fifo nSamples))
                           buffer channel (size1 (prepareToWrite ops fifo nSamples))
                           (size2 (prepareToWrite ops fifo nSamples));
                 fillTimestamps (q1\<lparr>m_buffer := buf2\<rparr>) channel
                   (index2 (prepareToWrite ops fifo nSamples))
                   (size2 (prepareToWrite ops fifo nSamples))
                   (timestamp + size1 (prepareToWrite ops fifo nSamples))
               }
             else Some q1) = Some q2"
    and q': "q' = q2\<lparr>m_fifos := (m_fifos q2)[nat channel :=
                      finishedWrite ops fifo (size1 (prepareToWrite ops fifo nSamples)
                         + size2 (prepareToWrite ops fifo nSamples))]\<rparr>"
    by (auto simp: writeChannel_def Let_def bind_eq_Some_conv)
  from fillTimestamps_shape[OF q1] obtain tss1 where
    e1: "q1 = q\<lparr>m_buffer := buf1, m_timestamps := tss1\<rparr>"
    and l1: "length tss1 = length (m_timestamps q)" by auto
  have lb1: "length buf1 = length (m_buffer q)" by (rule copyFrom_length[OF b1])
  have "\<exists>b tss. q2 = q\<lparr>m_buffer := b, m_timestamps := tss\<rparr>
          \<and> length b = length (m_buffer q) \<and> length tss = length (m_timestamps q)"
  proof (cases "size2 (prepareToWrite ops fifo nSamples) > 0")
    case False
    with q2 e1 l1 lb1 show ?thesis by auto
  next
    case True
    with q2 obtain buf2 where
      b2: "copyFrom (m_buffer q1) channel (index2 (prepareToWrite ops fifo nSamples))
                           buffer channel (size1 (prepareToWrite ops fifo nSamples))
                           (size2 (prepareToWrite ops fifo nSamples)) = Some buf2"
      and "fillTimestamps (q1\<lparr>m_buffer := buf2\<rparr>) channel
                   (index2 (prepareToWrite ops fifo nSamples))
                   (size2 (prepareToWrite ops fifo nSamples))
                   (timestamp + size1 (prepareToWrite ops fifo nSamples)) = Some q2"
      by (auto simp: bind_eq_Some_conv)
    from fillTimestamps_shape[OF this(2)] obtain tss2 where
      "q2 = q1\<lparr>m_buffer := buf2, m_timestamps := tss2\<rparr>"
      and l2: "length tss2 = length (m_timestamps (q1\<lparr>m_buffer := buf2\<rparr>))" by auto
    with e1 have "q2 = q\<lparr>m_buffer := buf2, m_timestamps := tss2\<rparr>" by simp
    moreover have "length buf2 = length (m_buffer q)"
      using copyFrom_length[OF b2] lb1 by (simp add: e1)
    moreover have "length tss2 = length (m_timestamps q)"
      using l2 l1 by (simp add: e1)
    ultimately show ?thesis by blast
  qed
  then obtain b tss where e2: "q2 = q\<lparr>m_buffer := b, m_timestamps := tss\<rparr>"
    and lb: "length b = length (m_buffer q)" and lt: "length tss = length (m_timestamps q)"
    by blast
  let ?fs = "(m_fifos q2)[nat channel :=
                      finishedWrite ops fifo (size1 (prepareToWrite ops fifo nSamples)
                         + size2 (prepareToWrite ops fifo nSamples))]"
  have "q' = q\<lparr>m_buffer := b, m_timestamps := tss, m_fifos := ?fs\<rparr>"
    using q' e2 by simp
  moreover have "length ?fs = length (m_fifos q)" by (simp add: e2)
  ultimately show ?thesis using lb lt by blast
qed

lemma writeChannel_rows:
  fixes q :: "'f DataQueue"
  assumes "wf_shape q" and "0 < m_blockSize q"
    and "0 \<le> channel" and "channel < m_numChans q" and "channel < int (length buffer)"
    and w: "w = prepareToWrite ops (m_fifos q ! nat channel) nSamples"
    and "0 \<le> size1 w" and "0 \<le> size2 w"
    and "0 < size1 w \<longrightarrow> 0 \<le> index1 w \<and> index1 w + size1 w \<le> int (length (m_buffer q ! nat channel))"
    and "0 < size2 w \<longrightarrow> 0 \<le> index2 w \<and> index2 w + size2 w \<le> int (length (m_buffer q ! nat channel))"
    and "size1 w + size2 w \<le> int (length (buffer ! nat channel))"
  shows "\<exists>tss. writeChannel ops q buffer channel nSamples timestamp =
     Some ((), q\<lparr>m_buffer := (m_buffer q)[nat channel :=
                     copy_samples
                       (copy_samples (m_buffer q ! nat channel) (nat (index1 w))
                          (buffer ! nat channel) 0 (nat (size1 w)))
                       (nat (index2 w)) (buffer ! nat channel) (nat (size1 w)) (nat (size2 w))],
                  m_timestamps := tss,
                  m_fifos := (m_fifos q)[nat channel :=
                     finishedWrite ops (m_fifos q ! nat channel) (size1 w + size2 w)]\<rparr>)"
proof -
  let ?c = "nat channel"
  let ?row = "m_buffer q ! ?c"
  let ?src = "buffer ! ?c"
  let ?row1 = "copy_samples ?row (nat (index1 w)) ?src 0 (nat (size1 w))"
  let ?row2 = "copy_samples ?row1 (nat (index2 w)) ?src (nat (size1 w)) (nat (size2 w))"
  have c: "?c < nat (m_numChans q)" using assms(3,4) by simp
  have lens: "length (m_fifos q) = nat (m_numChans q)" "length (m_buffer q) = nat (m_numChans q)"
    "length (m_timestamps q) = nat (m_numChans q)"
    using assms(1) by (simp_all add: wf_shape_def)
  have f: "owned_get (m_fifos q) channel = Some (m_fifos q ! ?c)"
    using assms(3,4) lens by (simp add: owned_get_def)
  have cp1: "copyFrom (m_buffer q) channel (index1 w) buffer channel 0 (size1 w)
      = Some ((m_buffer q)[?c := ?row1])"
  proof (cases "0 < size1 w")
    case True
    with assms(3,4,5,9,11) assms(8) lens show ?thesis
      by (subst copyFrom_in_range) simp_all
  next
    case False
    with assms(7) have "size1 w = 0" by simp
    then show ?thesis by (simp add: copyFrom_def copy_samples_none)
  qed
  let ?q1 = "q\<lparr>m_buffer := (m_buffer q)[?c := ?row1]\<rparr>"
  from fillTimestamps_Some[of ?q1 channel "index1 w" "size1 w" timestamp] assms(2,3,4) lens
  obtain tss1 where ft1: "fillTimestamps ?q1 channel (index1 w) (size1 w) timestamp
      = Some (?q1\<lparr>m_timestamps := tss1\<rparr>)" and lt1: "True"
    by auto
  have ltss1: "length tss1 = length (m_timestamps q)"
    using fillTimestamps_shape[OF ft1] by (auto dest: arg_cong[where f = m_timestamps])
  let ?q2 = "?q1\<lparr>m_timestamps := tss1\<rparr>"
  have lrow1: "length ?row1 = length ?row"
  proof (cases "0 < size1 w")
    case True
    have "nat (index1 w) + nat (size1 w) \<le> length ?row"
      using True assms(9) by linarith
    moreover have "0 + nat (size1 w) \<le> length ?src"
      using assms(7,8,11) by linarith
    ultimately show ?thesis by (rule length_copy_samples)
  next
    case False
    with assms(7) have "size1 w = 0" by simp
    then show ?thesis by (simp add: copy_samples_none)
  qed
  let ?goal = "\<lambda>tss. writeChannel ops q buffer channel nSamples timestamp =
     Some ((), q\<lparr>m_buffer := (m_buffer q)[?c := ?row2], m_timestamps := tss,
                  m_fifos := (m_fifos q)[?c := finishedWrite ops (m_fifos q ! ?c) (size1 w + size2 w)]\<rparr>)"
  show ?thesis
  proof (cases "0 < size2 w")
    case False
    with assms(8) have z: "size2 w = 0" by simp
    then have "?row2 = ?row1" by (simp add: copy_samples_none)
    then have "?goal tss1"
      unfolding writeChannel_def f w[symmetric] Let_def
      by (simp add: cp1 ft1 z w[symmetric])
    then show ?thesis by blast
  next
    case True
    have "nat (index2 w) + nat (size2 w) \<le> length ?row1"
      using True assms(10) lrow1 by linarith
    have cp2: "copyFrom ((m_buffer q)[?c := ?row1]) channel (index2 w) buffer channel
          (size1 w) (size2 w) = Some ((m_buffer q)[?c := ?row2])"
      using True assms(3,4,5,7,10,11) lens c lrow1
      by (subst copyFrom_in_range) simp_all
    let ?q3 = "q\<lparr>m_timestamps := tss1, m_buffer := (m_buffer q)[?c := ?row2]\<rparr>"
    from fillTimestamps_Some[of ?q3 channel "index2 w" "size2 w" "timestamp + size1 w"]
      assms(2,3,4) lens ltss1
    obtain tss2 where ft2: "fillTimestamps ?q3 channel (index2 w) (size2 w) (timestamp + size1 w)
        = Some (?q3\<lparr>m_timestamps := tss2\<rparr>)"
      by auto
    have "?goal tss2"
      unfolding writeChannel_def f w[symmetric] Let_def
      using True by (simp add: cp1 ft1 cp2 ft2 w[symmetric])
    then show ?thesis by blast
  qed
qed

section \<open>The shape is an invariant\<close>

text \<open>
  The constructor establishes the shape and every operation keeps it, whatever the
  allocator; writes and \<^verbatim>\<open>stopRead\<close> leave the last-read timestamps alone.
\<close>

lemma resize_chan_shape:
  assumes "resize_chan ops wsize nBlocks (int i) q = Some q'" and "wf_shape q"
    and "i < nat (m_numChans q)"
  shows "wf_shape q' \<and> m_numChans q' = m_numChans q"
  using assms
  by (auto simp: resize_chan_def wf_shape_def array_set_def bind_eq_Some_conv)

lemma wf_shape_kept:
  fixes q :: "'f DataQueue"
  shows "wf_shape (DataQueue_new blockSize nBlocks :: 'f DataQueue)"
    and "wf_shape q \<Longrightarrow> setChannels ops q nChans = Some (u1, q1) \<Longrightarrow> wf_shape q1"
    and "wf_shape q \<Longrightarrow> resize ops q nBlocks' = Some (u2, q2) \<Longrightarrow> wf_shape q2"
    and "wf_shape q \<Longrightarrow> writeChannel ops q buffer channel nSamples timestamp = Some (u3, q3)
           \<Longrightarrow> wf_shape q3"
    and "wf_shape q \<Longrightarrow> startRead ops q is0 ts0 nMax = Some (r, q4) \<Longrightarrow> wf_shape q4"
    and "wf_shape q \<Longrightarrow> stopRead ops q = Some (u5, q5) \<Longrightarrow> wf_shape q5"
proof -
  show "wf_shape (DataQueue_new blockSize nBlocks :: 'f DataQueue)"
    by (simp add: wf_shape_def DataQueue_new_def setSize_def)
  show "wf_shape q1" if "wf_shape q" "setChannels ops q nChans = Some (u1, q1)"
    using that by (auto simp: setChannels_def wf_shape_def setSize_def split: if_splits)
  show "wf_shape q2" if w: "wf_shape q" and r: "resize ops q nBlocks' = Some (u2, q2)"
  proof (cases "m_readInProgress q")
    case True
    with r w show ?thesis by (simp add: resize_def)
  next
    case False
    let ?q0 = "q\<lparr>m_maxSize := m_blockSize q * nBlocks', m_numBlocks := nBlocks'\<rparr>"
    from r False obtain q' where
      l: "for_loop (nat (m_numChans q)) (resize_chan ops (m_blockSize q * nBlocks') nBlocks') ?q0
            = Some q'"
      and q2: "q2 = q'\<lparr>m_buffer := setSize (m_numChans q') (m_blockSize q * nBlocks')\<rparr>"
      by (auto simp: resize_def Let_def bind_eq_Some_conv)
    have "(\<lambda>i q1. wf_shape q1 \<and> m_numChans q1 = m_numChans q) (nat (m_numChans q)) q'"
    proof (rule for_loop_invariant[OF l])
      show "wf_shape ?q0 \<and> m_numChans ?q0 = m_numChans q"
        using w by (simp add: wf_shape_def)
    next
      fix i and s s' :: "'f DataQueue"
      assume "i < nat (m_numChans q)" and "wf_shape s \<and> m_numChans s = m_numChans q"
        and "resize_chan ops (m_blockSize q * nBlocks') nBlocks' (int i) s = Some s'"
      then show "wf_shape s' \<and> m_numChans s' = m_numChans q"
        using resize_chan_shape[of ops _ _ i s s'] by simp
    qed
    then show ?thesis by (simp add: q2 wf_shape_def setSize_def)
  qed
  show "wf_shape q3"
    if w: "wf_shape q" and r: "writeChannel ops q buffer channel nSamples timestamp = Some (u3, q3)"
    using writeChannel_shape[OF r] w by (auto simp: wf_shape_def)
  show "wf_shape q4" if w: "wf_shape q" and r: "startRead ops q is0 ts0 nMax = Some (r, q4)"
  proof (cases "m_readInProgress q")
    case True
    with r w show ?thesis by (simp add: startRead_def)
  next
    case False
    with r w show ?thesis
      by (auto simp: startRead_idle[OF False w] wf_shape_def split: if_splits)
  qed
  show "wf_shape q5" if w: "wf_shape q" and r: "stopRead ops q = Some (u5, q5)"
  proof (cases "m_readInProgress q")
    case True
    with r w stopRead_open[OF True w, of ops] show ?thesis
      by (auto simp: wf_shape_def)
  next
    case False
    with r w show ?thesis by (simp add: stopRead_def)
  qed
qed

lemma run_action_keeps:
  assumes "run_action ops a q = Some q'" and "wf_shape q"
  shows "wf_shape q' \<and> m_lastReadTimestamps q' = m_lastReadTimestamps q
       \<and> m_numChans q' = m_numChans q \<and> m_blockSize q' = m_blockSize q"
proof (cases a)
  case (Write buffer channel nSamples timestamp)
  with assms(1) obtain u where
    "writeChannel ops q buffer channel nSamples timestamp = Some (u, q')" by auto
  from writeChannel_shape[OF this] assms(2) show ?thesis
    by (auto simp: wf_shape_def)
next
  case Stop
  show ?thesis
  proof (cases "m_readInProgress q")
    case True
    from stopRead_open[OF True assms(2)] assms Stop show ?thesis
      by (auto simp: wf_shape_def)
  next
    case False
    with assms Stop show ?thesis by (auto simp: stopRead_def)
  qed
qed

lemma run_actions_keeps:
  assumes "run_actions ops acts q = Some q'" and "wf_shape q"
  shows "wf_shape q' \<and> m_lastReadTimestamps q' = m_lastReadTimestamps q
       \<and> m_numChans q' = m_numChans q \<and> m_blockSize q' = m_blockSize q"
  using assms
proof (induction acts arbitrary: q)
  case Nil
  then show ?case by simp
next
  case (Cons a acts)
  from Cons.prems(1) obtain q1 where a: "run_action ops a q = Some q1"
    and r: "run_actions ops acts q1 = Some q'"
    by (auto simp: bind_eq_Some_conv)
  from run_action_keeps[OF a Cons.prems(2)] Cons.IH[OF r] show ?case by simp
qed

section \<open>The whole invariant is kept\<close>

text \<open>
  With the modelled allocator every operation of the queue, started in a well-formed
  state, ends in a well-formed state; \<^verbatim>\<open>resize\<close> for a positive number of blocks, and the
  constructor for a positive block size and a positive number of blocks.
\<close>

lemma af_write_window:
  assumes "af_ok f"
  shows "0 \<le> size1 (af_prepareToWrite f n)" and "0 \<le> size2 (af_prepareToWrite f n)"
    and "size1 (af_prepareToWrite f n) + size2 (af_prepareToWrite f n) \<le> af_getFreeSpace f"
    and "0 \<le> index1 (af_prepareToWrite f n)"
    and "index1 (af_prepareToWrite f n) + size1 (af_prepareToWrite f n) \<le> bufferSize f"
    and "index2 (af_prepareToWrite f n) = 0"
    and "size2 (af_prepareToWrite f n) \<le> index1 (af_prepareToWrite f n)"
  using assms
  by (auto simp: af_ok_def af_prepareToWrite_def af_getFreeSpace_def af_getNumReady_def
      Let_def min_def split: if_splits)

lemma af_finishedWrite_ok:
  assumes "af_ok f" and "0 \<le> n" and "n \<le> af_getFreeSpace f"
  shows "af_ok (af_finishedWrite f n)" and "bufferSize (af_finishedWrite f n) = bufferSize f"
    and "af_getNumReady (af_finishedWrite f n) = af_getNumReady f + n"
  using assms
  by (auto simp: af_ok_def af_finishedWrite_def af_getFreeSpace_def af_getNumReady_def
      Let_def split: if_splits)

lemma af_read_window:
  assumes "af_ok f"
  shows "0 \<le> consumed (af_prepareToRead f n)"
    and "consumed (af_prepareToRead f n) \<le> af_getNumReady f"
  using assms
  by (auto simp: af_ok_def af_prepareToRead_def af_getNumReady_def consumed_def
      Let_def min_def split: if_splits)

lemma af_finishedRead_ok:
  assumes "af_ok f" and "0 \<le> n" and "n \<le> af_getNumReady f"
  shows "af_ok (af_finishedRead f n)" and "bufferSize (af_finishedRead f n) = bufferSize f"
    and "0 \<le> af_getNumReady (af_finishedRead f n)"
  using assms
  by (auto simp: af_ok_def af_finishedRead_def af_getNumReady_def Let_def split: if_splits)

lemma fillTimestamps_loop_null:
  assumes "0 < bs"
  shows "fillTimestamps_loop bs index wsize st bsp bidx i None \<noteq> Some (Some tbl')"
proof (induction "nat (wsize - i)" arbitrary: i rule: less_induct)
  case less
  show ?case
  proof (cases "i < wsize")
    case False
    then show ?thesis by (subst fillTimestamps_loop.simps) simp
  next
    case True
    with assms have "nat (wsize - (i + bs)) < nat (wsize - i)" by simp
    from less[OF this] show ?thesis
      using True by (subst fillTimestamps_loop.simps) simp
  qed
qed

lemma block_index_bound:
  assumes "0 < bs" and "0 \<le> a" and "a < bs * nb"
  shows "0 \<le> a sdiv bs \<and> a sdiv bs < (nb::int)"
proof -
  have d: "a sdiv bs = a div bs" using assms by (simp add: sdiv_smod_nonneg)
  have "0 \<le> a div bs" using assms by (simp add: pos_imp_zdiv_nonneg_iff)
  moreover have "a div bs < nb"
  proof (rule ccontr)
    assume "\<not> a div bs < nb"
    then have "bs * nb \<le> bs * (a div bs)" using assms(1) by (simp add: mult_left_mono)
    also have "\<dots> = a - a mod bs" by (simp add: minus_mod_eq_mult_div)
    also have "\<dots> \<le> a" using assms(1) by simp
    finally show False using assms(3) by simp
  qed
  ultimately show ?thesis by (simp add: d)
qed

lemma fillTimestamps_tables:
  assumes "fillTimestamps q channel index wsize timestamp = Some q'"
    and "0 < m_blockSize q" and "0 \<le> index"
    and "index + wsize \<le> m_blockSize q * m_numBlocks q"
    and "\<forall>tbl \<in> set (m_timestamps q). length tbl = nat (m_numBlocks q)"
  shows "\<exists>tss. q' = q\<lparr>m_timestamps := tss\<rparr> \<and> length tss = length (m_timestamps q)
            \<and> (\<forall>tbl \<in> set tss. length tbl = nat (m_numBlocks q))"
proof -
  let ?bs = "m_blockSize q"
  let ?off = "blockOffset ?bs index"
  let ?slot = "(index + ?off) sdiv ?bs"
  let ?st = "timestamp + ?off"
  let ?bsp = "index + ?off"
  let ?p = "owned_get (m_timestamps q) channel"
  have e1: "(if index smod ?bs = 0 then timestamp else timestamp + (?bs - index smod ?bs)) = ?st"
    by (simp add: blockOffset_def)
  have e2: "(if index smod ?bs = 0 then index else index + (?bs - index smod ?bs)) = ?bsp"
    by (simp add: blockOffset_def)
  have e3: "(if index smod ?bs = 0 then index sdiv ?bs else index sdiv ?bs + 1) = ?slot"
    using next_block_index[OF assms(2,3)] by simp
  from assms(1,2) obtain table where
    loop: "fillTimestamps_loop ?bs index wsize ?st ?bsp ?slot 0 ?p = Some table"
    and q': "q' = (case table of
                 None \<Rightarrow> q
               | Some tbl \<Rightarrow> q\<lparr>m_timestamps := (m_timestamps q)[nat channel := tbl]\<rparr>)"
    unfolding fillTimestamps_def Let_def e1 e2 e3
    by (auto simp: bind_eq_Some_conv)
  have same: "\<exists>tss. q = q\<lparr>m_timestamps := tss\<rparr> \<and> length tss = length (m_timestamps q)
            \<and> (\<forall>tbl \<in> set tss. length tbl = nat (m_numBlocks q))"
    using assms(5) by (intro exI[of _ "m_timestamps q"]) simp
  show ?thesis
  proof (cases table)
    case None
    then show ?thesis using q' same by simp
  next
    case (Some tbl1)
    then obtain tbl where p: "?p = Some tbl"
      using loop fillTimestamps_loop_null[OF assms(2)] by (cases ?p) auto
    then have c: "0 \<le> channel" "nat channel < length (m_timestamps q)"
      and tbl: "tbl = m_timestamps q ! nat channel"
      by (auto simp: owned_get_def split: if_splits)
    have len: "length tbl = nat (m_numBlocks q)" using assms(5) c tbl by simp
    have off0: "0 \<le> ?off" using blockOffset_next_boundary[OF assms(2,3)] by simp
    have "length tbl1 = length tbl"
    proof (cases "?off < wsize")
      case False
      then have "fillTimestamps_loop ?bs index wsize ?st ?bsp ?slot 0 ?p = Some ?p"
        using assms(2) by (intro fillTimestamps_loop_no_start) simp_all
      then show ?thesis using loop Some p by simp
    next
      case True
      then have "?bsp < ?bs * m_numBlocks q" using assms(4) by simp
      moreover have "0 \<le> ?bsp" using off0 assms(3) by simp
      ultimately have "0 \<le> ?slot \<and> ?slot < m_numBlocks q"
        using assms(2) by (intro block_index_bound) simp_all
      then have "0 \<le> ?slot" "?slot < int (length tbl)" using len by simp_all
      from fillTimestamps_loop_one_slot[OF assms(2) this]
      obtain v where "fillTimestamps_loop ?bs index wsize ?st ?bsp ?slot 0 (Some tbl)
              = Some (Some (tbl[nat ?slot := v]))" by blast
      then have "tbl1 = tbl[nat ?slot := v]" using loop Some p by simp
      then show ?thesis by simp
    qed
    then have l1: "length tbl1 = nat (m_numBlocks q)" using len by simp
    have "\<forall>t \<in> set ((m_timestamps q)[nat channel := tbl1]). length t = nat (m_numBlocks q)"
    proof
      fix t assume "t \<in> set ((m_timestamps q)[nat channel := tbl1])"
      then have "t = tbl1 \<or> t \<in> set (m_timestamps q)"
        using set_update_subset_insert[of "m_timestamps q" "nat channel" tbl1] by auto
      then show "length t = nat (m_numBlocks q)" using l1 assms(5) by auto
    qed
    then show ?thesis using q' Some
      by (intro exI[of _ "(m_timestamps q)[nat channel := tbl1]"]) simp
  qed
qed

lemma copyFrom_rows:
  assumes "copyFrom dest dc ds src sc ss n = Some dest'"
    and "\<forall>row \<in> set dest. length row = L"
  shows "\<forall>row \<in> set dest'. length row = L"
proof (cases "n > 0")
  case False
  with assms show ?thesis by (simp add: copyFrom_def)
next
  case True
  with assms(1) obtain d s where d: "owned_get dest dc = Some d" and s: "owned_get src sc = Some s"
    and r: "0 \<le> ds \<and> ds + n \<le> int (length d) \<and> 0 \<le> ss \<and> ss + n \<le> int (length s)"
    and dest': "dest' = dest[nat dc := copy_samples d (nat ds) s (nat ss) (nat n)]"
    by (auto simp: copyFrom_def bind_eq_Some_conv split: if_splits)
  from d have "d \<in> set dest" by (auto simp: owned_get_def split: if_splits)
  then have ld: "length d = L" using assms(2) by simp
  have a: "nat ds + nat n \<le> length d" using r True by linarith
  have b: "nat ss + nat n \<le> length s" using r True by linarith
  have ln: "length (copy_samples d (nat ds) s (nat ss) (nat n)) = L"
    using length_copy_samples[OF a b] ld by simp
  show ?thesis
  proof
    fix row assume "row \<in> set dest'"
    then have "row = copy_samples d (nat ds) s (nat ss) (nat n) \<or> row \<in> set dest"
      unfolding dest'
      using set_update_subset_insert[of dest "nat dc" "copy_samples d (nat ds) s (nat ss) (nat n)"]
      by auto
    then show "length row = L" using ln assms(2) by auto
  qed
qed

lemma set_update_all:
  assumes "\<forall>x \<in> set xs. P x" and "P y"
  shows "\<forall>x \<in> set (xs[i := y]). P x"
  using assms set_update_subset_insert[of xs i y] by auto

lemma wf_queue_writeChannel:
  assumes wf: "wf_queue q"
    and wr: "writeChannel AbstractFifo_ops q buffer channel nSamples timestamp = Some (u, q')"
  shows "wf_queue q'"
proof -
  let ?c = "nat channel"
  let ?f = "m_fifos q ! ?c"
  let ?w = "af_prepareToWrite ?f nSamples"
  let ?B = "m_maxSize q"
  from wf have sh: "wf_shape q" and sz: "wf_sizes q" and ff: "wf_fifos q" and rb: "reads_bounded q"
    by (simp_all add: wf_queue_def)
  have bs: "0 < m_blockSize q" and cap: "?B = m_blockSize q * m_numBlocks q"
    and rows: "\<forall>row \<in> set (m_buffer q). length row = nat ?B"
    and tabs: "\<forall>tbl \<in> set (m_timestamps q). length tbl = nat (m_numBlocks q)"
    using sz by (simp_all add: wf_sizes_def)
  from wr obtain fifo buf1 q1 q2 where
    f0: "owned_get (m_fifos q) channel = Some fifo"
    and b10: "copyFrom (m_buffer q) channel (index1 (prepareToWrite AbstractFifo_ops fifo nSamples))
               buffer channel 0 (size1 (prepareToWrite AbstractFifo_ops fifo nSamples)) = Some buf1"
    and q10: "fillTimestamps (q\<lparr>m_buffer := buf1\<rparr>) channel
               (index1 (prepareToWrite AbstractFifo_ops fifo nSamples))
               (size1 (prepareToWrite AbstractFifo_ops fifo nSamples)) timestamp = Some q1"
    and q20: "(if size2 (prepareToWrite AbstractFifo_ops fifo nSamples) > 0 then
               do {
                 buf2 \<leftarrow> copyFrom (m_buffer q1) channel
                           (index2 (prepareToWrite AbstractFifo_ops fifo nSamples))
                           buffer channel (size1 (prepareToWrite AbstractFifo_ops fifo nSamples))
                           (size2 (prepareToWrite AbstractFifo_ops fifo nSamples));
                 fillTimestamps (q1\<lparr>m_buffer := buf2\<rparr>) channel
                   (index2 (prepareToWrite AbstractFifo_ops fifo nSamples))
                   (size2 (prepareToWrite AbstractFifo_ops fifo nSamples))
                   (timestamp + size1 (prepareToWrite AbstractFifo_ops fifo nSamples))
               }
             else Some q1) = Some q2"
    and q'0: "q' = q2\<lparr>m_fifos := (m_fifos q2)[nat channel :=
                      finishedWrite AbstractFifo_ops fifo
                        (size1 (prepareToWrite AbstractFifo_ops fifo nSamples)
                         + size2 (prepareToWrite AbstractFifo_ops fifo nSamples))]\<rparr>"
    by (auto simp: writeChannel_def Let_def bind_eq_Some_conv)
  have fifo: "fifo = ?f" using f0 by (auto simp: owned_get_def split: if_splits)
  have pw: "prepareToWrite AbstractFifo_ops fifo nSamples = ?w"
    by (simp add: AbstractFifo_ops_def fifo)
  have fwr: "finishedWrite AbstractFifo_ops fifo = af_finishedWrite ?f"
    by (simp add: AbstractFifo_ops_def fifo)
  note f = f0[unfolded fifo] and b1 = b10[unfolded pw] and q1 = q10[unfolded pw]
    and q2 = q20[unfolded pw] and q' = q'0[unfolded pw fwr]
  from f have c: "0 \<le> channel" "?c < length (m_fifos q)"
    by (auto simp: owned_get_def split: if_splits)
  have ok: "af_ok ?f" and fb: "bufferSize ?f = ?B"
    using ff c by (simp_all add: wf_fifos_def)
  note win = af_write_window[OF ok, of nSamples]
  have r1: "\<forall>row \<in> set buf1. length row = nat ?B" by (rule copyFrom_rows[OF b1 rows])
  have l1: "length buf1 = length (m_buffer q)" by (rule copyFrom_length[OF b1])
  have "\<exists>tss. q1 = q\<lparr>m_buffer := buf1\<rparr>\<lparr>m_timestamps := tss\<rparr>
          \<and> length tss = length (m_timestamps (q\<lparr>m_buffer := buf1\<rparr>))
          \<and> (\<forall>tbl \<in> set tss. length tbl = nat (m_numBlocks (q\<lparr>m_buffer := buf1\<rparr>)))"
    using bs win(4,5) fb cap tabs by (intro fillTimestamps_tables[OF q1]) simp_all
  then obtain tss1 where e1: "q1 = q\<lparr>m_buffer := buf1, m_timestamps := tss1\<rparr>"
    and lt1: "length tss1 = length (m_timestamps q)"
    and t1: "\<forall>tbl \<in> set tss1. length tbl = nat (m_numBlocks q)"
    by auto
  have "\<exists>buf tss. q2 = q\<lparr>m_buffer := buf, m_timestamps := tss\<rparr>
          \<and> length buf = length (m_buffer q) \<and> (\<forall>row \<in> set buf. length row = nat ?B)
          \<and> length tss = length (m_timestamps q)
          \<and> (\<forall>tbl \<in> set tss. length tbl = nat (m_numBlocks q))"
  proof (cases "size2 ?w > 0")
    case False
    with q2 e1 l1 r1 lt1 t1 show ?thesis by auto
  next
    case True
    with q2 obtain buf2 where
      b2: "copyFrom (m_buffer q1) channel (index2 ?w) buffer channel (size1 ?w) (size2 ?w)
             = Some buf2"
      and f2: "fillTimestamps (q1\<lparr>m_buffer := buf2\<rparr>) channel (index2 ?w) (size2 ?w)
                   (timestamp + size1 ?w) = Some q2"
      by (auto simp: bind_eq_Some_conv)
    have r2: "\<forall>row \<in> set buf2. length row = nat ?B"
      using copyFrom_rows[OF b2] r1 by (simp add: e1)
    have l2: "length buf2 = length (m_buffer q)"
      using copyFrom_length[OF b2] l1 by (simp add: e1)
    have "index2 ?w + size2 ?w \<le> m_blockSize q * m_numBlocks q"
      using win(1,5,6,7) fb cap by simp
    then have "\<exists>tss. q2 = q1\<lparr>m_buffer := buf2\<rparr>\<lparr>m_timestamps := tss\<rparr>
          \<and> length tss = length (m_timestamps (q1\<lparr>m_buffer := buf2\<rparr>))
          \<and> (\<forall>tbl \<in> set tss. length tbl = nat (m_numBlocks (q1\<lparr>m_buffer := buf2\<rparr>)))"
      using bs win(6) t1 by (intro fillTimestamps_tables[OF f2]) (simp_all add: e1)
    then obtain tss2 where "q2 = q\<lparr>m_buffer := buf2, m_timestamps := tss2\<rparr>"
      and "length tss2 = length (m_timestamps q)"
      and "\<forall>tbl \<in> set tss2. length tbl = nat (m_numBlocks q)"
      using lt1 by (auto simp: e1)
    then show ?thesis using r2 l2 by blast
  qed
  then obtain buf tss where e2: "q2 = q\<lparr>m_buffer := buf, m_timestamps := tss\<rparr>"
    and lb: "length buf = length (m_buffer q)" and rb2: "\<forall>row \<in> set buf. length row = nat ?B"
    and lt: "length tss = length (m_timestamps q)"
    and tb: "\<forall>tbl \<in> set tss. length tbl = nat (m_numBlocks q)"
    by blast
  let ?G = "size1 ?w + size2 ?w"
  let ?f' = "af_finishedWrite ?f ?G"
  have G0: "0 \<le> ?G" using win(1,2) by simp
  note fw = af_finishedWrite_ok[OF ok G0 win(3)]
  have e: "q' = q\<lparr>m_buffer := buf, m_timestamps := tss, m_fifos := (m_fifos q)[?c := ?f']\<rparr>"
    using q' e2 by simp
  have "wf_shape q'" using sh lb lt by (simp add: e wf_shape_def)
  moreover have "wf_sizes q'" using sz rb2 tb by (simp add: e wf_sizes_def)
  moreover have "wf_fifos q'"
  proof -
    have "\<forall>x \<in> set ((m_fifos q)[?c := ?f']). af_ok x \<and> bufferSize x = ?B"
      using ff fw(1,2) fb by (intro set_update_all) (simp_all add: wf_fifos_def)
    then show ?thesis by (simp add: e wf_fifos_def)
  qed
  moreover have "reads_bounded q'"
    unfolding reads_bounded_def
  proof (intro allI impI)
    fix k assume "k < length (m_fifos q')"
    then have k: "k < length (m_fifos q)" by (simp add: e)
    from rb k have b: "0 \<le> m_readSamples q ! k"
      "m_readSamples q ! k \<le> af_getNumReady (m_fifos q ! k)"
      by (simp_all add: reads_bounded_def)
    show "0 \<le> m_readSamples q' ! k \<and> m_readSamples q' ! k \<le> af_getNumReady (m_fifos q' ! k)"
    proof (cases "k = ?c")
      case True
      then show ?thesis using b k fw(3) G0 by (simp add: e)
    next
      case False
      then show ?thesis using b k by (simp add: e)
    qed
  qed
  ultimately show ?thesis by (simp add: wf_queue_def)
qed

lemma wf_queue_startRead:
  assumes wf: "wf_queue q"
    and sr: "startRead AbstractFifo_ops q is0 ts0 nMax = Some (r, q')"
  shows "wf_queue q'"
proof (cases "m_readInProgress q")
  case True
  with sr wf show ?thesis by (simp add: startRead_def)
next
  case False
  from wf have sh: "wf_shape q" and sz: "wf_sizes q" and ff: "wf_fifos q"
    by (simp_all add: wf_queue_def)
  let ?n = "nat (m_numChans q)"
  let ?w = "chan_window AbstractFifo_ops q nMax"
  from sr have q': "q' = q\<lparr>m_readInProgress := True,
                  m_readSamples := map (\<lambda>c. consumed (?w c)) [0..<?n],
                  m_lastReadTimestamps :=
                    map (\<lambda>c. reconciled q (int c) (?w c) + consumed (?w c)) [0..<?n]\<rparr>"
    by (auto simp: startRead_idle[OF False sh] split: if_splits)
  have n: "length (m_fifos q) = ?n" using sh by (simp add: wf_shape_def)
  have "reads_bounded q'"
    unfolding reads_bounded_def
  proof (intro allI impI)
    fix c assume "c < length (m_fifos q')"
    then have c: "c < ?n" using n by (simp add: q')
    then have ok: "af_ok (m_fifos q ! c)" using ff n by (simp add: wf_fifos_def)
    have w: "?w c = af_prepareToRead (m_fifos q ! c)
                      (samplesToRead AbstractFifo_ops (m_fifos q ! c) nMax)"
      by (simp add: chan_window_def AbstractFifo_ops_def)
    show "0 \<le> m_readSamples q' ! c \<and> m_readSamples q' ! c \<le> af_getNumReady (m_fifos q' ! c)"
      using c af_read_window[OF ok] by (simp add: q' w)
  qed
  moreover have "wf_shape q'" using sh by (simp add: q' wf_shape_def)
  moreover have "wf_sizes q'" using sz by (simp add: q' wf_sizes_def)
  moreover have "wf_fifos q'" using ff by (simp add: q' wf_fifos_def)
  ultimately show ?thesis by (simp add: wf_queue_def)
qed

lemma wf_queue_stopRead:
  assumes wf: "wf_queue q" and st: "stopRead AbstractFifo_ops q = Some (u, q')"
  shows "wf_queue q'"
proof (cases "m_readInProgress q")
  case False
  with st wf show ?thesis by (simp add: stopRead_def)
next
  case True
  from wf have sh: "wf_shape q" and sz: "wf_sizes q" and ff: "wf_fifos q" and rb: "reads_bounded q"
    by (simp_all add: wf_queue_def)
  let ?fs = "map2 af_finishedRead (m_fifos q) (m_readSamples q)"
  have fr: "finishedRead AbstractFifo_ops = af_finishedRead" by (simp add: AbstractFifo_ops_def)
  from st stopRead_open[OF True sh, of AbstractFifo_ops]
  have q': "q' = q\<lparr>m_fifos := ?fs, m_readSamples := replicate (nat (m_numChans q)) 0,
                     m_readInProgress := False\<rparr>"
    by (simp add: fr)
  have n: "length (m_fifos q) = nat (m_numChans q)" "length (m_readSamples q) = nat (m_numChans q)"
    using sh by (simp_all add: wf_shape_def)
  have each: "af_ok (?fs ! c) \<and> bufferSize (?fs ! c) = m_maxSize q
       \<and> 0 \<le> af_getNumReady (?fs ! c)" if "c < nat (m_numChans q)" for c
  proof -
    have ok: "af_ok (m_fifos q ! c)" and b: "bufferSize (m_fifos q ! c) = m_maxSize q"
      using ff that n by (simp_all add: wf_fifos_def)
    have r: "0 \<le> m_readSamples q ! c" "m_readSamples q ! c \<le> af_getNumReady (m_fifos q ! c)"
      using rb that n by (simp_all add: reads_bounded_def)
    have "?fs ! c = af_finishedRead (m_fifos q ! c) (m_readSamples q ! c)"
      using that n by simp
    then show ?thesis using af_finishedRead_ok[OF ok r] b by simp
  qed
  have lfs: "length ?fs = nat (m_numChans q)" using n by simp
  have "wf_fifos q'"
    unfolding wf_fifos_def
  proof
    fix f assume "f \<in> set (m_fifos q')"
    then have "f \<in> set ?fs" by (simp add: q')
    then obtain c where c: "c < length ?fs" and f: "f = ?fs ! c" by (metis in_set_conv_nth)
    from c n have "c < nat (m_numChans q)" by simp
    from each[OF this] show "af_ok f \<and> bufferSize f = m_maxSize q'" by (simp add: q' f)
  qed
  moreover have "reads_bounded q'"
    unfolding reads_bounded_def
  proof (intro allI impI)
    fix c assume "c < length (m_fifos q')"
    then have c: "c < nat (m_numChans q)" using n by (simp add: q')
    from each[OF c] c n
    show "0 \<le> m_readSamples q' ! c \<and> m_readSamples q' ! c \<le> af_getNumReady (m_fifos q' ! c)"
      by (simp add: q')
  qed
  moreover have "wf_shape q'" using sh n by (simp add: q' wf_shape_def)
  moreover have "wf_sizes q'" using sz by (simp add: q' wf_sizes_def)
  ultimately show ?thesis by (simp add: wf_queue_def)
qed

lemma wf_queue_new:
  "0 < blockSize \<Longrightarrow> 0 < nBlocks \<Longrightarrow> wf_queue (DataQueue_new blockSize nBlocks)"
  by (simp add: wf_queue_def wf_shape_def wf_sizes_def wf_fifos_def reads_bounded_def
      DataQueue_new_def setSize_def)

lemma wf_queue_setChannels:
  assumes wf: "wf_queue q" and sc: "setChannels AbstractFifo_ops q nChans = Some (u, q')"
  shows "wf_queue q'"
proof (cases "m_readInProgress q")
  case True
  with sc wf show ?thesis by (simp add: setChannels_def)
next
  case False
  from wf have sz: "wf_sizes q" by (simp add: wf_queue_def)
  then have cap: "0 < m_maxSize q" by (simp add: wf_sizes_def)
  from sc False have q': "q' = q\<lparr>
        m_fifos := replicate (nat nChans) (af_new (m_maxSize q)),
        m_readSamples := replicate (nat nChans) 0,
        m_numChans := nChans,
        m_timestamps := replicate (nat nChans) (array_resize [] (m_numBlocks q)),
        m_lastReadTimestamps := replicate (nat nChans) 0,
        m_buffer := setSize nChans (m_maxSize q)\<rparr>"
    by (auto simp: setChannels_def AbstractFifo_ops_def)
  show ?thesis
    using sz cap
    by (simp add: q' wf_queue_def wf_shape_def wf_sizes_def wf_fifos_def reads_bounded_def
        af_ok_def af_new_def af_getNumReady_def array_resize_def setSize_def)
qed

lemma resize_chan_upto:
  assumes r: "resize_chan AbstractFifo_ops wsize nBlocks (int i) q = Some q'"
    and p: "resized_upto nChans blockSize wsize nBlocks i q"
    and i: "i < nat nChans" and w: "0 < wsize"
  shows "resized_upto nChans blockSize wsize nBlocks (Suc i) q'"
proof -
  from p have sh: "wf_shape q" and nc: "m_numChans q = nChans"
    by (simp_all add: resized_upto_def)
  have len: "i < length (m_fifos q)" "i < length (m_readSamples q)"
    "i < length (m_timestamps q)" "i < length (m_lastReadTimestamps q)"
    using sh i nc by (simp_all add: wf_shape_def)
  have q': "q' = q\<lparr>
         m_fifos := (m_fifos q)[i := af_reset (af_setTotalSize (m_fifos q ! i) wsize)],
         m_readSamples := (m_readSamples q)[i := 0],
         m_timestamps := (m_timestamps q)[i := array_resize (m_timestamps q ! i) nBlocks],
         m_lastReadTimestamps := (m_lastReadTimestamps q)[i := 0]\<rparr>"
    using r len
    by (simp add: resize_chan_def owned_get_def array_set_def AbstractFifo_ops_def)
  have new: "af_ok (af_reset (af_setTotalSize f wsize))"
    "bufferSize (af_reset (af_setTotalSize f wsize)) = wsize"
    "af_getNumReady (af_reset (af_setTotalSize f wsize)) = 0" for f
    using w by (simp_all add: af_ok_def af_reset_def af_setTotalSize_def af_getNumReady_def)
  have tl: "length (array_resize t nBlocks) = nat nBlocks" for t
    by (simp add: array_resize_def)
  have "wf_shape q'" using sh by (simp add: q' wf_shape_def)
  moreover have "af_ok (m_fifos q' ! c) \<and> bufferSize (m_fifos q' ! c) = wsize
            \<and> af_getNumReady (m_fifos q' ! c) = 0 \<and> m_readSamples q' ! c = 0
            \<and> length (m_timestamps q' ! c) = nat nBlocks" if "c < Suc i" for c
  proof (cases "c = i")
    case True
    then show ?thesis using len new tl by (simp add: q')
  next
    case False
    with that have "c < i" by simp
    with p have "af_ok (m_fifos q ! c) \<and> bufferSize (m_fifos q ! c) = wsize
            \<and> af_getNumReady (m_fifos q ! c) = 0 \<and> m_readSamples q ! c = 0
            \<and> length (m_timestamps q ! c) = nat nBlocks"
      by (simp add: resized_upto_def)
    then show ?thesis using False by (simp add: q')
  qed
  ultimately show ?thesis using p by (simp add: resized_upto_def q')
qed

lemma wf_queue_resize:
  assumes wf: "wf_queue q" and nb: "0 < nBlocks"
    and r: "resize AbstractFifo_ops q nBlocks = Some (u, q')"
  shows "wf_queue q'"
proof (cases "m_readInProgress q")
  case True
  with r wf show ?thesis by (simp add: resize_def)
next
  case False
  from wf have sh: "wf_shape q" and sz: "wf_sizes q" by (simp_all add: wf_queue_def)
  let ?w = "m_blockSize q * nBlocks"
  let ?n = "nat (m_numChans q)"
  let ?q0 = "q\<lparr>m_maxSize := ?w, m_numBlocks := nBlocks\<rparr>"
  from sz nb have w: "0 < ?w" by (simp add: wf_sizes_def)
  from r False obtain q2 where
    l: "for_loop ?n (resize_chan AbstractFifo_ops ?w nBlocks) ?q0 = Some q2"
    and q': "q' = q2\<lparr>m_buffer := setSize (m_numChans q2) ?w\<rparr>"
    by (auto simp: resize_def Let_def bind_eq_Some_conv)
  have p: "resized_upto (m_numChans q) (m_blockSize q) ?w nBlocks ?n q2"
  proof (rule for_loop_invariant[OF l])
    show "resized_upto (m_numChans q) (m_blockSize q) ?w nBlocks 0 ?q0"
      using sh by (simp add: resized_upto_def wf_shape_def)
  next
    fix i and s s' :: "AbstractFifo DataQueue"
    assume "i < ?n" and "resized_upto (m_numChans q) (m_blockSize q) ?w nBlocks i s"
      and "resize_chan AbstractFifo_ops ?w nBlocks (int i) s = Some s'"
    then show "resized_upto (m_numChans q) (m_blockSize q) ?w nBlocks (Suc i) s'"
      using resize_chan_upto w by blast
  qed
  then have sh2: "wf_shape q2" and f2: "m_numChans q2 = m_numChans q"
    "m_blockSize q2 = m_blockSize q" "m_maxSize q2 = ?w" "m_numBlocks q2 = nBlocks"
    and each: "\<And>c. c < ?n \<Longrightarrow> af_ok (m_fifos q2 ! c) \<and> bufferSize (m_fifos q2 ! c) = ?w
            \<and> af_getNumReady (m_fifos q2 ! c) = 0 \<and> m_readSamples q2 ! c = 0
            \<and> length (m_timestamps q2 ! c) = nat nBlocks"
    by (simp_all add: resized_upto_def)
  have n: "length (m_fifos q2) = ?n" "length (m_timestamps q2) = ?n"
    using sh2 f2 by (simp_all add: wf_shape_def)
  have "wf_shape q'" using sh2 f2 by (simp add: q' wf_shape_def setSize_def)
  moreover have "wf_sizes q'"
  proof -
    have "length tbl = nat nBlocks" if "tbl \<in> set (m_timestamps q2)" for tbl
    proof -
      from that obtain c where "c < length (m_timestamps q2)" "tbl = m_timestamps q2 ! c"
        by (metis in_set_conv_nth)
      then show ?thesis using each n by simp
    qed
    then show ?thesis using sz nb f2 by (simp add: q' wf_sizes_def setSize_def)
  qed
  moreover have "wf_fifos q'"
    unfolding wf_fifos_def
  proof
    fix f assume "f \<in> set (m_fifos q')"
    then have "f \<in> set (m_fifos q2)" by (simp add: q')
    then obtain c where "c < length (m_fifos q2)" "f = m_fifos q2 ! c"
      by (metis in_set_conv_nth)
    then show "af_ok f \<and> bufferSize f = m_maxSize q'" using each n f2 by (simp add: q')
  qed
  moreover have "reads_bounded q'"
    unfolding reads_bounded_def using each n by (simp add: q')
  ultimately show ?thesis by (simp add: wf_queue_def)
qed

section \<open>The example queues are reached\<close>

text \<open>
  Each example queue is a state of the program: the result of the operations shown, started
  from the constructor or from an earlier example.
\<close>

lemma ex_idle_reached:
  "do {
     (u, q1) \<leftarrow> setChannels AbstractFifo_ops (DataQueue_new 4 2) 1;
     writeChannel AbstractFifo_ops q1 [[1, 2, 3, 4]] 0 4 100
   } = Some ((), ex_idle)"
  by code_simp

lemma ex_open_reached:
  "startRead AbstractFifo_ops ex_idle [] [] 0
     = Some ((True, [\<lparr>index1 = 0, size1 = 4, index2 = 0, size2 = 0\<rparr>], [100]), ex_open)"
  by code_simp

lemma ex_closed_reached: "stopRead AbstractFifo_ops ex_open = Some ((), ex_closed)"
  by code_simp

lemma ex_part_reached:
  "do {
     (u, q1) \<leftarrow> setChannels AbstractFifo_ops (DataQueue_new 4 2) 1;
     (u, q2) \<leftarrow> writeChannel AbstractFifo_ops q1 [[1, 2, 3]] 0 3 100;
     (r, q3) \<leftarrow> startRead AbstractFifo_ops q2 [] [] 1;
     stopRead AbstractFifo_ops q3
   } = Some ((), ex_part)"
  by code_simp

lemma ex_part_read:
  "startRead AbstractFifo_ops ex_part [] [] 0
     = Some ((True, [\<lparr>index1 = 1, size1 = 2, index2 = 0, size2 = 0\<rparr>], [101]), ex_part_open)"
  by code_simp

lemma ex_misaligned_reached:
  "do {
     (u, q1) \<leftarrow> setChannels AbstractFifo_ops (DataQueue_new 10 2) 1;
     (u, q2) \<leftarrow> writeChannel AbstractFifo_ops q1 [[1, 2, 3]] 0 3 50;
     (r, q3) \<leftarrow> startRead AbstractFifo_ops q2 [] [] 0;
     stopRead AbstractFifo_ops q3
   } = Some ((), ex_misaligned)"
  by code_simp

lemma ex_three_reached:
  "do {
     (u, q1) \<leftarrow> setChannels AbstractFifo_ops (DataQueue_new 4 2) 1;
     writeChannel AbstractFifo_ops q1 [[1, 2, 3]] 0 3 100
   } = Some ((), ex_three)"
  by code_simp

lemma ex_three_read:
  "startRead AbstractFifo_ops ex_three [] [] 1
     = Some ((True, [\<lparr>index1 = 0, size1 = 1, index2 = 0, size2 = 0\<rparr>], [100]), ex_three_open)"
  by code_simp

lemma ex_four_reached:
  "run_actions AbstractFifo_ops [Write [[9]] 0 1 103, Stop] ex_three_open = Some ex_four"
  by code_simp

lemma ex_four_read:
  "startRead AbstractFifo_ops ex_four [] [] 0
     = Some ((True, [\<lparr>index1 = 1, size1 = 3, index2 = 0, size2 = 0\<rparr>], [101]), ex_four_open)"
  by code_simp

lemma ex_wrap_reached:
  "do {
     (u, q1) \<leftarrow> writeChannel AbstractFifo_ops ex_idle [[5, 6]] 0 2 104;
     (r, q2) \<leftarrow> startRead AbstractFifo_ops q1 [] [] 3;
     stopRead AbstractFifo_ops q2
   } = Some ((), ex_wrap)"
  by code_simp

lemma ex_wrap_full_reached:
  "writeChannel AbstractFifo_ops ex_wrap [[7, 8, 9, 10, 11, 12]] 0 6 106 = Some ((), ex_wrap_full)"
  by code_simp

lemma ex_wrap_read:
  "startRead AbstractFifo_ops ex_wrap [] [] 0
     = Some ((True, [\<lparr>index1 = 3, size1 = 3, index2 = 0, size2 = 0\<rparr>], [103]), ex_wrap_open)"
  by code_simp

section \<open>The read session guard\<close>

text \<open>
  Claim C5. Whenever a read session is already open, a further call to \<^verbatim>\<open>startRead\<close>
  returns false and leaves the whole queue state unchanged: the ring cursors, the recorded
  consumed lengths, the timestamp tables, the last-read timestamps and the flag. The two
  arrays of the caller are not touched either.
\<close>

theorem startRead_open_rejected:
  "m_readInProgress q \<Longrightarrow>
     startRead ops q indexes timestamps nMax = Some ((False, indexes, timestamps), q)"
  by (simp add: startRead_def)

text \<open>The guard at work on the example queue whose session is open.\<close>

theorem startRead_open_rejected_witness:
  "m_readInProgress ex_open \<and>
   startRead AbstractFifo_ops ex_open [\<lparr>index1 = 7, size1 = 1, index2 = 0, size2 = 2\<rparr>] [42] 3
     = Some ((False, [\<lparr>index1 = 7, size1 = 1, index2 = 0, size2 = 2\<rparr>], [42]), ex_open)"
proof -
  have h: "m_readInProgress ex_open" by (simp add: ex_open_def)
  from startRead_open_rejected[OF h] h show ?thesis by simp
qed

text \<open>
  Claim C6, as amended. While a read session is open, \<^verbatim>\<open>setChannels\<close> and \<^verbatim>\<open>resize\<close> leave
  the whole queue state unchanged (ring allocators, timestamp tables, last-read timestamps,
  sample store, channel count). Both are \<^verbatim>\<open>void\<close>: they return nothing, so the rejection
  is not reported to the caller.
\<close>

theorem reconfigure_open_rejected:
  "m_readInProgress q \<Longrightarrow>
     setChannels ops q nChans = Some ((), q) \<and> resize ops q nBlocks = Some ((), q)"
  by (simp add: setChannels_def resize_def)

text \<open>The rejection on the example queue whose session is open.\<close>

theorem reconfigure_open_rejected_witness:
  "m_readInProgress ex_open \<and> setChannels AbstractFifo_ops ex_open 2 = Some ((), ex_open)
     \<and> resize AbstractFifo_ops ex_open 3 = Some ((), ex_open)"
proof -
  have h: "m_readInProgress ex_open" by (simp add: ex_open_def)
  from reconfigure_open_rejected[OF h] h show ?thesis by simp
qed

text \<open>
  Claim C6 as stated asks for a result that reports the failure. A rejected call and an
  accepted call return the same value, the unit value of a \<^verbatim>\<open>void\<close> function, while the
  first leaves the channel count (the ring depth) alone and the second changes it.
\<close>

theorem reconfigure_reports_nothing:
  "map_option fst (setChannels AbstractFifo_ops ex_open 2)
     = map_option fst (setChannels AbstractFifo_ops ex_idle 2)
   \<and> map_option fst (resize AbstractFifo_ops ex_open 3)
     = map_option fst (resize AbstractFifo_ops ex_idle 3)
   \<and> map_option (m_numChans \<circ> snd) (setChannels AbstractFifo_ops ex_open 2) = Some 1
   \<and> map_option (m_numChans \<circ> snd) (setChannels AbstractFifo_ops ex_idle 2) = Some 2
   \<and> map_option (m_numBlocks \<circ> snd) (resize AbstractFifo_ops ex_open 3) = Some 2
   \<and> map_option (m_numBlocks \<circ> snd) (resize AbstractFifo_ops ex_idle 3) = Some 3"
  by code_simp

text \<open>
  Claim C7. \<^verbatim>\<open>stopRead\<close> with no open session changes nothing. With an open session it
  commits, for every channel, the recorded consumed length to the channel's ring allocator,
  resets every recorded length to zero and clears the flag; and the recorded lengths are
  exactly the lengths of the windows the preceding \<^verbatim>\<open>startRead\<close> returned.
\<close>

theorem stopRead_commits:
  "(\<not> m_readInProgress q \<longrightarrow> stopRead ops q = Some ((), q)) \<and>
   (m_readInProgress q \<and> wf_shape q \<longrightarrow>
      stopRead ops q = Some ((), q\<lparr>
            m_fifos := map2 (finishedRead ops) (m_fifos q) (m_readSamples q),
            m_readSamples := replicate (nat (m_numChans q)) 0,
            m_readInProgress := False\<rparr>)) \<and>
   (wf_shape q0 \<and> startRead ops q0 is0 ts0 nMax = Some ((True, idxs, tss), q) \<longrightarrow>
      m_readInProgress q \<and> wf_shape q \<and> m_readSamples q = map consumed idxs)"
proof (intro conjI impI)
  show "stopRead ops q = Some ((), q)" if "\<not> m_readInProgress q"
    using that by (simp add: stopRead_def)
  show "stopRead ops q = Some ((), q\<lparr>
            m_fifos := map2 (finishedRead ops) (m_fifos q) (m_readSamples q),
            m_readSamples := replicate (nat (m_numChans q)) 0,
            m_readInProgress := False\<rparr>)" if "m_readInProgress q \<and> wf_shape q"
    using that by (simp add: stopRead_open)
  assume a: "wf_shape q0 \<and> startRead ops q0 is0 ts0 nMax = Some ((True, idxs, tss), q)"
  then have idle: "\<not> m_readInProgress q0"
    by (auto simp: startRead_def)
  from a have eq: "idxs = map (chan_window ops q0 nMax) [0..<nat (m_numChans q0)]"
     and q: "q = q0\<lparr>m_readInProgress := True,
                  m_readSamples :=
                    map (\<lambda>c. consumed (chan_window ops q0 nMax c)) [0..<nat (m_numChans q0)],
                  m_lastReadTimestamps :=
                    map (\<lambda>c. reconciled q0 (int c) (chan_window ops q0 nMax c)
                                + consumed (chan_window ops q0 nMax c)) [0..<nat (m_numChans q0)]\<rparr>"
    by (auto simp: startRead_idle[OF idle] split: if_splits)
  show "m_readInProgress q" by (simp add: q)
  show "wf_shape q" using a by (simp add: q wf_shape_def)
  show "m_readSamples q = map consumed idxs" by (simp add: q eq)
qed

text \<open>Both cases on the example queues, and the lengths recorded by the session that
  leads from the idle example to the open one.\<close>

theorem stopRead_commits_witness:
  "(\<not> m_readInProgress ex_idle \<and> stopRead AbstractFifo_ops ex_idle = Some ((), ex_idle)) \<and>
   (m_readInProgress ex_open \<and> wf_shape ex_open \<and>
      stopRead AbstractFifo_ops ex_open = Some ((), ex_open\<lparr>
            m_fifos := [\<lparr>bufferSize = 8, validStart = 4, validEnd = 4\<rparr>],
            m_readSamples := [0],
            m_readInProgress := False\<rparr>)) \<and>
   (wf_shape ex_idle \<and> startRead AbstractFifo_ops ex_idle [] [] 0
        = Some ((True, [\<lparr>index1 = 0, size1 = 4, index2 = 0, size2 = 0\<rparr>], [100]), ex_open) \<and>
      m_readSamples ex_open = map consumed [\<lparr>index1 = 0, size1 = 4, index2 = 0, size2 = 0\<rparr>])"
proof -
  have i: "\<not> m_readInProgress ex_idle" by (simp add: ex_idle_def)
  have o: "m_readInProgress ex_open" by (simp add: ex_open_def)
  have wi: "wf_shape ex_idle" by (simp add: ex_idle_def wf_shape_def)
  have wo: "wf_shape ex_open" by (simp add: ex_open_def wf_shape_def)
  have f: "map2 (finishedRead AbstractFifo_ops) (m_fifos ex_open) (m_readSamples ex_open)
      = [\<lparr>bufferSize = 8, validStart = 4, validEnd = 4\<rparr>]"
    by (simp add: ex_open_def AbstractFifo_ops_def af_finishedRead_def)
  have n: "replicate (nat (m_numChans ex_open)) (0::int) = [0]"
    by (simp add: ex_open_def)
  from stopRead_commits[of ex_idle AbstractFifo_ops ex_idle "[]" "[]" 0
        "[\<lparr>index1 = 0, size1 = 4, index2 = 0, size2 = 0\<rparr>]" "[100]"]
       stopRead_commits[of ex_open AbstractFifo_ops ex_idle "[]" "[]" 0
        "[\<lparr>index1 = 0, size1 = 4, index2 = 0, size2 = 0\<rparr>]" "[100]"]
  show ?thesis
    using i o wi wo ex_open_reached by (simp add: f n)
qed

section \<open>Timestamps reconciled on read\<close>

text \<open>
  Claim C2. \<^verbatim>\<open>startRead\<close> succeeds on an idle queue whose arrays have one entry per channel
  and whose timestamp tables have one slot per block, when the allocator hands out read
  windows that start at a non-negative index. For every channel, let \<open>off\<close> be the distance
  from the first returned read index to the next block boundary (0 if aligned) and \<open>len\<close>
  the total consumed length. If \<open>off < len\<close>, the timestamp returned for the channel is the
  entry of the timestamp table for the block that starts at that boundary, minus \<open>off\<close>, and
  the channel's last-read timestamp becomes that timestamp plus \<open>len\<close>. Otherwise the
  timestamp returned is the channel's previous last-read timestamp, and the last-read
  timestamp is advanced by \<open>len\<close>. The windows are the ones the allocator returns for the
  capped length, and \<open>len\<close> is the length recorded for \<^verbatim>\<open>stopRead\<close>. (An open queue is
  rejected, see the guard; every successful call is a call on an idle queue.)
\<close>

theorem startRead_reconciles:
  assumes "\<not> m_readInProgress q" and "wf_shape q" and "wf_sizes q"
    and "\<forall>c<nat (m_numChans q).
           0 \<le> index1 (prepareToRead ops (m_fifos q ! c) (samplesToRead ops (m_fifos q ! c) nMax))"
  shows "\<exists>idxs tss q'.
      startRead ops q is0 ts0 nMax = Some ((True, idxs, tss), q')
    \<and> length idxs = nat (m_numChans q) \<and> length tss = nat (m_numChans q)
    \<and> (\<forall>chan. 0 \<le> chan \<and> chan < m_numChans q \<longrightarrow>
         (let idx = idxs ! nat chan;
              off = blockOffset (m_blockSize q) (index1 idx);
              len = size1 idx + size2 idx;
              slot = ((index1 idx + off) sdiv m_blockSize q) smod m_numBlocks q
          in idx = prepareToRead ops (m_fifos q ! nat chan)
                     (samplesToRead ops (m_fifos q ! nat chan) nMax)
           \<and> m_readSamples q' ! nat chan = len
           \<and> (off < len \<longrightarrow>
                 tss ! nat chan = (m_timestamps q ! nat chan) ! nat slot - off
               \<and> m_lastReadTimestamps q' ! nat chan = tss ! nat chan + len)
           \<and> (\<not> off < len \<longrightarrow>
                 tss ! nat chan = m_lastReadTimestamps q ! nat chan
               \<and> m_lastReadTimestamps q' ! nat chan
                   = m_lastReadTimestamps q ! nat chan + len)))"
proof -
  let ?n = "nat (m_numChans q)"
  let ?w = "chan_window ops q nMax"
  let ?idxs = "map ?w [0..<?n]"
  let ?tss = "map (\<lambda>c. reconciled q (int c) (?w c)) [0..<?n]"
  let ?q' = "q\<lparr>m_readInProgress := True,
                m_readSamples := map (\<lambda>c. consumed (?w c)) [0..<?n],
                m_lastReadTimestamps :=
                  map (\<lambda>c. reconciled q (int c) (?w c) + consumed (?w c)) [0..<?n]\<rparr>"
  have rd: "chan_readable q (int c) (?w c)" if "c < ?n" for c
  proof (rule chan_readable_wf[OF assms(3)])
    show "nat (int c) < length (m_timestamps q)"
      using that assms(2) by (simp add: wf_shape_def)
    show "0 \<le> index1 (?w c)"
      using that assms(4) by (simp add: chan_window_def)
  qed
  have s: "startRead ops q is0 ts0 nMax = Some ((True, ?idxs, ?tss), ?q')"
    using rd by (simp add: startRead_idle[OF assms(1,2)])
  have per: "let idx = ?idxs ! nat chan;
              off = blockOffset (m_blockSize q) (index1 idx);
              len = size1 idx + size2 idx;
              slot = ((index1 idx + off) sdiv m_blockSize q) smod m_numBlocks q
          in idx = prepareToRead ops (m_fifos q ! nat chan)
                     (samplesToRead ops (m_fifos q ! nat chan) nMax)
           \<and> m_readSamples ?q' ! nat chan = len
           \<and> (off < len \<longrightarrow>
                 ?tss ! nat chan = (m_timestamps q ! nat chan) ! nat slot - off
               \<and> m_lastReadTimestamps ?q' ! nat chan = ?tss ! nat chan + len)
           \<and> (\<not> off < len \<longrightarrow>
                 ?tss ! nat chan = m_lastReadTimestamps q ! nat chan
               \<and> m_lastReadTimestamps ?q' ! nat chan
                   = m_lastReadTimestamps q ! nat chan + len)"
    if ch: "0 \<le> chan \<and> chan < m_numChans q" for chan
  proof -
    have c: "nat chan < ?n" using ch by simp
    have i: "?idxs ! nat chan = ?w (nat chan)" using c by simp
    have t: "?tss ! nat chan = reconciled q chan (?w (nat chan))"
      using c ch by simp
    have r: "m_readSamples ?q' ! nat chan = consumed (?w (nat chan))"
      using c by simp
    have l: "m_lastReadTimestamps ?q' ! nat chan
               = reconciled q chan (?w (nat chan)) + consumed (?w (nat chan))"
      using c ch by simp
    show ?thesis
      unfolding Let_def i t r l
      by (simp add: reconciled_def consumed_def chan_window_def Let_def)
  qed
  have "length ?idxs = ?n" "length ?tss = ?n" by simp_all
  with s per show ?thesis by blast
qed

text \<open>
  Three sessions of the modelled allocator, each with its run: a window that starts on a
  block boundary (offset 0, slot 0), a window \<open>[3, 6)\<close> that starts inside the first block
  and crosses into the second (offset 1, slot 1, \<open>103 = 104 - 1\<close>), and a window \<open>[1, 3)\<close>
  that lies inside the first block (offset 3, no boundary, the last-read timestamp 101).
\<close>

theorem startRead_reconciles_witness:
  "(\<not> m_readInProgress ex_idle \<and> wf_shape ex_idle \<and> wf_sizes ex_idle
      \<and> 0 \<le> index1 (prepareToRead AbstractFifo_ops (m_fifos ex_idle ! 0)
                        (samplesToRead AbstractFifo_ops (m_fifos ex_idle ! 0) 0))
      \<and> startRead AbstractFifo_ops ex_idle [] [] 0
          = Some ((True, [\<lparr>index1 = 0, size1 = 4, index2 = 0, size2 = 0\<rparr>], [100]), ex_open)
      \<and> blockOffset 4 0 = 0 \<and> (0::int) < 4 + 0
      \<and> (100::int) = (m_timestamps ex_idle ! 0) ! 0 - 0
      \<and> m_lastReadTimestamps ex_open ! 0 = 100 + (4 + 0))
 \<and> (\<not> m_readInProgress ex_wrap \<and> wf_shape ex_wrap \<and> wf_sizes ex_wrap
      \<and> 0 \<le> index1 (prepareToRead AbstractFifo_ops (m_fifos ex_wrap ! 0)
                        (samplesToRead AbstractFifo_ops (m_fifos ex_wrap ! 0) 0))
      \<and> startRead AbstractFifo_ops ex_wrap [] [] 0
          = Some ((True, [\<lparr>index1 = 3, size1 = 3, index2 = 0, size2 = 0\<rparr>], [103]), ex_wrap_open)
      \<and> blockOffset 4 3 = 1 \<and> (1::int) < 3 + 0
      \<and> (103::int) = (m_timestamps ex_wrap ! 0) ! 1 - 1
      \<and> m_lastReadTimestamps ex_wrap_open ! 0 = 103 + (3 + 0))
 \<and> (\<not> m_readInProgress ex_part \<and> wf_shape ex_part \<and> wf_sizes ex_part
      \<and> 0 \<le> index1 (prepareToRead AbstractFifo_ops (m_fifos ex_part ! 0)
                        (samplesToRead AbstractFifo_ops (m_fifos ex_part ! 0) 0))
      \<and> startRead AbstractFifo_ops ex_part [] [] 0
          = Some ((True, [\<lparr>index1 = 1, size1 = 2, index2 = 0, size2 = 0\<rparr>], [101]), ex_part_open)
      \<and> blockOffset 4 1 = 3 \<and> \<not> (3::int) < 2 + 0
      \<and> (101::int) = m_lastReadTimestamps ex_part ! 0
      \<and> m_lastReadTimestamps ex_part_open ! 0 = m_lastReadTimestamps ex_part ! 0 + (2 + 0))"
proof -
  have bo: "blockOffset 4 0 = 0" "blockOffset 4 3 = 1" "blockOffset 4 1 = 3"
    by (simp_all add: blockOffset_def signed_modulo_int_def)
  have sl: "(1::int) smod 2 = 1"
    by (simp add: signed_modulo_int_def)
  have i1: "\<not> m_readInProgress ex_idle" by (simp add: ex_idle_def)
  have i2: "wf_shape ex_idle" by (simp add: wf_shape_def ex_idle_def)
  have i3: "wf_sizes ex_idle" by (simp add: wf_sizes_def ex_idle_def)
  have i4: "0 \<le> index1 (prepareToRead AbstractFifo_ops (m_fifos ex_idle ! 0)
                        (samplesToRead AbstractFifo_ops (m_fifos ex_idle ! 0) 0))"
    by code_simp
  have i5: "m_numChans ex_idle = 1" "m_blockSize ex_idle = 4" "m_numBlocks ex_idle = 2"
    by (simp_all add: ex_idle_def)
  have i4': "\<forall>c<nat (m_numChans ex_idle).
      0 \<le> index1 (prepareToRead AbstractFifo_ops (m_fifos ex_idle ! c)
                        (samplesToRead AbstractFifo_ops (m_fifos ex_idle ! c) 0))"
    using i4 by (simp add: i5)
  from startRead_reconciles[OF i1 i2 i3 i4', of "[]" "[]"]
  obtain idxs tss q' where
    s: "startRead AbstractFifo_ops ex_idle [] [] 0 = Some ((True, idxs, tss), q')"
    and p: "\<And>chan. 0 \<le> chan \<and> chan < m_numChans ex_idle \<Longrightarrow>
         (let idx = idxs ! nat chan;
              off = blockOffset (m_blockSize ex_idle) (index1 idx);
              len = size1 idx + size2 idx;
              slot = ((index1 idx + off) sdiv m_blockSize ex_idle) smod m_numBlocks ex_idle
          in idx = prepareToRead AbstractFifo_ops (m_fifos ex_idle ! nat chan)
                     (samplesToRead AbstractFifo_ops (m_fifos ex_idle ! nat chan) 0)
           \<and> m_readSamples q' ! nat chan = len
           \<and> (off < len \<longrightarrow>
                 tss ! nat chan = (m_timestamps ex_idle ! nat chan) ! nat slot - off
               \<and> m_lastReadTimestamps q' ! nat chan = tss ! nat chan + len)
           \<and> (\<not> off < len \<longrightarrow>
                 tss ! nat chan = m_lastReadTimestamps ex_idle ! nat chan
               \<and> m_lastReadTimestamps q' ! nat chan
                   = m_lastReadTimestamps ex_idle ! nat chan + len))"
    by blast
  from s ex_open_reached
  have e: "idxs = [\<lparr>index1 = 0, size1 = 4, index2 = 0, size2 = 0\<rparr>]" "tss = [100]" "q' = ex_open"
    by simp_all
  from p[of 0] have a: "(100::int) = (m_timestamps ex_idle ! 0) ! 0 - 0
      \<and> m_lastReadTimestamps ex_open ! 0 = 100 + (4 + 0)"
    by (simp add: Let_def e i5 bo sl)
  have w1: "\<not> m_readInProgress ex_wrap" by (simp add: ex_wrap_def)
  have w2: "wf_shape ex_wrap" by (simp add: wf_shape_def ex_wrap_def)
  have w3: "wf_sizes ex_wrap" by (simp add: wf_sizes_def ex_wrap_def)
  have w4: "0 \<le> index1 (prepareToRead AbstractFifo_ops (m_fifos ex_wrap ! 0)
                        (samplesToRead AbstractFifo_ops (m_fifos ex_wrap ! 0) 0))"
    by code_simp
  have w5: "m_numChans ex_wrap = 1" "m_blockSize ex_wrap = 4" "m_numBlocks ex_wrap = 2"
    by (simp_all add: ex_wrap_def)
  have w4': "\<forall>c<nat (m_numChans ex_wrap).
      0 \<le> index1 (prepareToRead AbstractFifo_ops (m_fifos ex_wrap ! c)
                        (samplesToRead AbstractFifo_ops (m_fifos ex_wrap ! c) 0))"
    using w4 by (simp add: w5)
  from startRead_reconciles[OF w1 w2 w3 w4', of "[]" "[]"]
  obtain idxs2 tss2 q2 where
    s2: "startRead AbstractFifo_ops ex_wrap [] [] 0 = Some ((True, idxs2, tss2), q2)"
    and p2: "\<And>chan. 0 \<le> chan \<and> chan < m_numChans ex_wrap \<Longrightarrow>
         (let idx = idxs2 ! nat chan;
              off = blockOffset (m_blockSize ex_wrap) (index1 idx);
              len = size1 idx + size2 idx;
              slot = ((index1 idx + off) sdiv m_blockSize ex_wrap) smod m_numBlocks ex_wrap
          in idx = prepareToRead AbstractFifo_ops (m_fifos ex_wrap ! nat chan)
                     (samplesToRead AbstractFifo_ops (m_fifos ex_wrap ! nat chan) 0)
           \<and> m_readSamples q2 ! nat chan = len
           \<and> (off < len \<longrightarrow>
                 tss2 ! nat chan = (m_timestamps ex_wrap ! nat chan) ! nat slot - off
               \<and> m_lastReadTimestamps q2 ! nat chan = tss2 ! nat chan + len)
           \<and> (\<not> off < len \<longrightarrow>
                 tss2 ! nat chan = m_lastReadTimestamps ex_wrap ! nat chan
               \<and> m_lastReadTimestamps q2 ! nat chan
                   = m_lastReadTimestamps ex_wrap ! nat chan + len))"
    by blast
  from s2 ex_wrap_read
  have e2: "idxs2 = [\<lparr>index1 = 3, size1 = 3, index2 = 0, size2 = 0\<rparr>]" "tss2 = [103]"
    "q2 = ex_wrap_open"
    by simp_all
  from p2[of 0] have b: "(103::int) = (m_timestamps ex_wrap ! 0) ! 1 - 1
      \<and> m_lastReadTimestamps ex_wrap_open ! 0 = 103 + (3 + 0)"
    by (simp add: Let_def e2 w5 bo sl)
  have p1: "\<not> m_readInProgress ex_part" by (simp add: ex_part_def)
  have p2': "wf_shape ex_part" by (simp add: wf_shape_def ex_part_def)
  have p3: "wf_sizes ex_part" by (simp add: wf_sizes_def ex_part_def)
  have p4: "0 \<le> index1 (prepareToRead AbstractFifo_ops (m_fifos ex_part ! 0)
                        (samplesToRead AbstractFifo_ops (m_fifos ex_part ! 0) 0))"
    by code_simp
  have p5: "m_numChans ex_part = 1" "m_blockSize ex_part = 4" "m_numBlocks ex_part = 2"
    by (simp_all add: ex_part_def)
  have p4': "\<forall>c<nat (m_numChans ex_part).
      0 \<le> index1 (prepareToRead AbstractFifo_ops (m_fifos ex_part ! c)
                        (samplesToRead AbstractFifo_ops (m_fifos ex_part ! c) 0))"
    using p4 by (simp add: p5)
  from startRead_reconciles[OF p1 p2' p3 p4', of "[]" "[]"]
  obtain idxs3 tss3 q3 where
    s3: "startRead AbstractFifo_ops ex_part [] [] 0 = Some ((True, idxs3, tss3), q3)"
    and p3': "\<And>chan. 0 \<le> chan \<and> chan < m_numChans ex_part \<Longrightarrow>
         (let idx = idxs3 ! nat chan;
              off = blockOffset (m_blockSize ex_part) (index1 idx);
              len = size1 idx + size2 idx;
              slot = ((index1 idx + off) sdiv m_blockSize ex_part) smod m_numBlocks ex_part
          in idx = prepareToRead AbstractFifo_ops (m_fifos ex_part ! nat chan)
                     (samplesToRead AbstractFifo_ops (m_fifos ex_part ! nat chan) 0)
           \<and> m_readSamples q3 ! nat chan = len
           \<and> (off < len \<longrightarrow>
                 tss3 ! nat chan = (m_timestamps ex_part ! nat chan) ! nat slot - off
               \<and> m_lastReadTimestamps q3 ! nat chan = tss3 ! nat chan + len)
           \<and> (\<not> off < len \<longrightarrow>
                 tss3 ! nat chan = m_lastReadTimestamps ex_part ! nat chan
               \<and> m_lastReadTimestamps q3 ! nat chan
                   = m_lastReadTimestamps ex_part ! nat chan + len))"
    by blast
  from s3 ex_part_read
  have e3: "idxs3 = [\<lparr>index1 = 1, size1 = 2, index2 = 0, size2 = 0\<rparr>]" "tss3 = [101]"
    "q3 = ex_part_open"
    by simp_all
  from p3'[of 0] have c: "(101::int) = m_lastReadTimestamps ex_part ! 0
      \<and> m_lastReadTimestamps ex_part_open ! 0 = m_lastReadTimestamps ex_part ! 0 + (2 + 0)"
    by (simp add: Let_def e3 p5 bo)
  show ?thesis
    using i1 i2 i3 i4 ex_open_reached a w1 w2 w3 w4 ex_wrap_read b
      p1 p2' p3 p4 ex_part_read c bo
    by simp
qed

section \<open>Timestamps stamped on write\<close>

text \<open>
  Claim C8. With a block size of 10 and a ring of at least 2 blocks, a \<^verbatim>\<open>writeChannel\<close> of
  10 samples whose first sample carries the timestamp 100 and whose allocator window starts
  at ring offset 3 stores \<open>107 = 100 + (10 - 3)\<close> into the timestamp table slot of the block
  that starts at ring position 10, which is slot \<open>(10 / 10) mod numBlocks = 1\<close>.
\<close>

theorem misaligned_write_stamps_107:
  assumes "wf_shape q" and "wf_sizes q"
    and "m_blockSize q = 10" and "2 \<le> m_numBlocks q"
    and "0 \<le> channel" and "channel < m_numChans q"
    and "channel < int (length buffer)" and "10 \<le> length (buffer ! nat channel)"
    and "prepareToWrite ops (m_fifos q ! nat channel) 10
           = \<lparr>index1 = 3, size1 = 10, index2 = i2, size2 = 0\<rparr>"
  shows "\<exists>q'. writeChannel ops q buffer channel 10 100 = Some ((), q')
           \<and> (m_timestamps q' ! nat channel) ! nat ((10 sdiv 10) smod m_numBlocks q) = 107
           \<and> (10 sdiv 10) smod m_numBlocks q = 1"
proof -
  let ?c = "nat channel"
  let ?tbl = "m_timestamps q ! ?c"
  have c: "?c < nat (m_numChans q)" using assms(5,6) by simp
  have f: "owned_get (m_fifos q) channel = Some (m_fifos q ! ?c)"
    using assms(1,5,6) by (simp add: owned_get_def wf_shape_def)
  have t: "owned_get (m_timestamps q) channel = Some ?tbl"
    using assms(1,5,6) by (simp add: owned_get_def wf_shape_def)
  have row: "length (m_buffer q ! ?c) = nat (m_maxSize q)"
    using assms(1,2) c by (simp add: wf_shape_def wf_sizes_def)
  have cap: "20 \<le> m_maxSize q" using assms(2,3,4) by (simp add: wf_sizes_def)
  have len: "length ?tbl = nat (m_numBlocks q)"
    using assms(1,2) c by (simp add: wf_shape_def wf_sizes_def)
  have cp: "copyFrom (m_buffer q) channel 3 buffer channel 0 10 =
     Some ((m_buffer q)[?c := copy_samples (m_buffer q ! ?c) (nat 3) (buffer ! ?c) (nat 0) (nat 10)])"
    using assms(1,5,6,7,8) row cap by (intro copyFrom_in_range) (simp_all add: wf_shape_def)
  have lp: "fillTimestamps_loop 10 3 10 107 10 1 0 (Some ?tbl) = Some (Some (array_set ?tbl 1 107))"
    by (subst fillTimestamps_loop_once) simp_all
  have st: "array_set ?tbl 1 107 = ?tbl[1 := 107]"
    using len assms(4) by (simp add: array_set_def)
  have sm: "(3::int) smod 10 = 3" "(3::int) sdiv 10 = 0"
    by (simp_all add: signed_modulo_int_def signed_divide_int_def)
  have slot: "1 smod m_numBlocks q = 1"
    using assms(4) by (simp add: signed_modulo_int_def)
  have ft: "fillTimestamps (q\<lparr>m_buffer := b\<rparr>) channel 3 10 100 =
      Some (q\<lparr>m_buffer := b, m_timestamps := (m_timestamps q)[?c := ?tbl[1 := 107]]\<rparr>)" for b
    using assms(3) by (simp add: fillTimestamps_def sm t lp st Let_def)
  have w: "writeChannel ops q buffer channel 10 100 =
     Some ((), q\<lparr>m_buffer := (m_buffer q)[?c := copy_samples (m_buffer q ! ?c) (nat 3) (buffer ! ?c) (nat 0) (nat 10)],
                  m_timestamps := (m_timestamps q)[?c := ?tbl[1 := 107]],
                  m_fifos := (m_fifos q)[?c := finishedWrite ops (m_fifos q ! ?c) 10]\<rparr>)"
    by (simp add: writeChannel_def f assms(9) cp ft)
  have "((m_timestamps q)[?c := ?tbl[1 := 107]] ! ?c) ! 1 = 107"
    using assms(1,4) c len by (simp add: wf_shape_def)
  then show ?thesis
    by (simp add: w slot)
qed

text \<open>The write on the example queue whose write cursor stands at ring offset 3.\<close>

theorem misaligned_write_stamps_107_witness:
  "wf_shape ex_misaligned \<and> wf_sizes ex_misaligned \<and> m_blockSize ex_misaligned = 10
   \<and> 2 \<le> m_numBlocks ex_misaligned \<and> (0::int) < m_numChans ex_misaligned
   \<and> prepareToWrite AbstractFifo_ops (m_fifos ex_misaligned ! nat 0) 10
           = \<lparr>index1 = 3, size1 = 10, index2 = 0, size2 = 0\<rparr>
   \<and> map_option (\<lambda>(u, q'). m_timestamps q' ! 0 ! 1)
        (writeChannel AbstractFifo_ops ex_misaligned [[11, 12, 13, 14, 15, 16, 17, 18, 19, 20]]
           0 10 100) = Some 107"
proof -
  have a: "wf_shape ex_misaligned" by (simp add: wf_shape_def ex_misaligned_def)
  have b: "wf_sizes ex_misaligned" by (simp add: wf_sizes_def ex_misaligned_def)
  have c: "m_blockSize ex_misaligned = 10" "2 \<le> m_numBlocks ex_misaligned"
      "(0::int) < m_numChans ex_misaligned"
    by (simp_all add: ex_misaligned_def)
  have d: "(0::int) < int (length [[11, 12, 13, 14, 15, 16, 17, 18, 19, 20::real]])"
    "10 \<le> length ([[11, 12, 13, 14, 15, 16, 17, 18, 19, 20::real]] ! nat 0)"
    by simp_all
  have e: "prepareToWrite AbstractFifo_ops (m_fifos ex_misaligned ! nat 0) 10
           = \<lparr>index1 = 3, size1 = 10, index2 = 0, size2 = 0\<rparr>"
    by (simp add: AbstractFifo_ops_def af_prepareToWrite_def ex_misaligned_def)
  have n: "nat (1 smod m_numBlocks ex_misaligned) = 1"
    by (simp add: ex_misaligned_def signed_modulo_int_def)
  from misaligned_write_stamps_107[OF a b c(1,2) order_refl c(3) d e]
  obtain q' where "writeChannel AbstractFifo_ops ex_misaligned
        [[11, 12, 13, 14, 15, 16, 17, 18, 19, 20]] 0 10 100 = Some ((), q')"
    and "m_timestamps q' ! nat 0 ! nat ((10 sdiv 10) smod m_numBlocks ex_misaligned) = 107"
    by blast
  then show ?thesis
    using a b c e by (simp add: n)
qed

text \<open>
  Claim C1 says that \<^verbatim>\<open>writeChannel\<close> stamps, for every block start covered by a window,
  the slot \<open>(position / blockSize) mod numBlocks\<close> with the timestamp of the sample at that
  position (one time unit per sample). The code does so when a window covers one block
  start. When a window covers a second block start, the loop writes to the slot of the
  first one again, and adds \<^verbatim>\<open>i * m_blockSize\<close> where \<^verbatim>\<open>i\<close> already counts samples. With
  blocks of 4 samples and a fresh ring of 4 blocks, 8 samples stamped 100 are granted the
  single window that starts at 0: the claim wants 100 in slot 0 and 104 in slot 1; the
  code leaves 116 in slot 0 and does not touch slot 1.
\<close>

theorem fillTimestamps_two_blocks:
  "do {
     (u, q1) \<leftarrow> setChannels AbstractFifo_ops (DataQueue_new 4 4) 1;
     (u, q2) \<leftarrow> writeChannel AbstractFifo_ops q1 [[1, 2, 3, 4, 5, 6, 7, 8]] 0 8 100;
     Some (prepareToWrite AbstractFifo_ops (m_fifos q1 ! 0) 8, m_timestamps q1, m_timestamps q2)
   } = Some (\<lparr>index1 = 0, size1 = 8, index2 = 0, size2 = 0\<rparr>, [[0, 0, 0, 0]], [[116, 0, 0, 0]])"
  by code_simp

section \<open>Recorded lengths outside a session\<close>

text \<open>
  Claim C9. Whenever no read session is in progress, the recorded consumed length of every
  channel is zero. The queue the constructor builds has this property, and \<^verbatim>\<open>setChannels\<close>,
  \<^verbatim>\<open>resize\<close>, \<^verbatim>\<open>writeChannel\<close>, \<^verbatim>\<open>startRead\<close> and \<^verbatim>\<open>stopRead\<close> preserve it, whatever the
  allocator and the arguments.
\<close>

theorem reads_cleared_invariant:
  "reads_cleared (DataQueue_new blockSize nBlocks) \<and>
   (reads_cleared q \<longrightarrow>
      (setChannels ops q nChans = Some (u1, q1) \<longrightarrow> reads_cleared q1) \<and>
      (resize ops q nBlocks' = Some (u2, q2) \<longrightarrow> reads_cleared q2) \<and>
      (writeChannel ops q buffer channel nSamples timestamp = Some (u3, q3) \<longrightarrow> reads_cleared q3) \<and>
      (startRead ops q is0 ts0 nMax = Some (r, q4) \<longrightarrow> reads_cleared q4) \<and>
      (stopRead ops q = Some (u5, q5) \<longrightarrow> reads_cleared q5))"
proof (intro conjI impI)
  show "reads_cleared (DataQueue_new blockSize nBlocks)"
    by (simp add: reads_cleared_def DataQueue_new_def)
next
  assume "reads_cleared q" and "setChannels ops q nChans = Some (u1, q1)"
  then show "reads_cleared q1"
    by (auto simp: setChannels_def reads_cleared_def array_get_def split: if_splits)
next
  assume inv: "reads_cleared q" and r: "resize ops q nBlocks' = Some (u2, q2)"
  show "reads_cleared q2"
  proof (cases "m_readInProgress q")
    case True
    with r inv show ?thesis by (simp add: resize_def)
  next
    case False
    let ?q0 = "q\<lparr>m_maxSize := m_blockSize q * nBlocks', m_numBlocks := nBlocks'\<rparr>"
    from r False obtain q' where
      l: "for_loop (nat (m_numChans q)) (resize_chan ops (m_blockSize q * nBlocks') nBlocks') ?q0
            = Some q'"
      and q2: "q2 = q'\<lparr>m_buffer := setSize (m_numChans q') (m_blockSize q * nBlocks')\<rparr>"
      by (auto simp: resize_def Let_def bind_eq_Some_conv)
    from clearing_loop[OF l resize_chan_fields]
    have "m_numChans q' = m_numChans q"
      and "\<forall>c<nat (m_numChans q). array_get (m_readSamples q') (int c) = 0"
      by simp_all
    then show ?thesis
      by (simp add: reads_cleared_def q2)
  qed
next
  assume inv: "reads_cleared q"
    and w: "writeChannel ops q buffer channel nSamples timestamp = Some (u3, q3)"
  from writeChannel_shape[OF w] obtain b tss fs where
    "q3 = q\<lparr>m_buffer := b, m_timestamps := tss, m_fifos := fs\<rparr>" by blast
  with inv show "reads_cleared q3"
    by (simp add: reads_cleared_def)
next
  assume inv: "reads_cleared q" and s: "startRead ops q is0 ts0 nMax = Some (r, q4)"
  show "reads_cleared q4"
  proof (cases "m_readInProgress q")
    case True
    with s inv show ?thesis by (simp add: startRead_def)
  next
    case False
    with s obtain is' ts' where
      "for_loop (nat (m_numChans q)) (startRead_chan ops nMax)
         (q\<lparr>m_readInProgress := True\<rparr>, [], []) = Some (q4, is', ts')"
      by (auto simp: startRead_def bind_eq_Some_conv)
    from startRead_loop_flag[OF this] show ?thesis
      by (simp add: reads_cleared_def)
  qed
next
  assume inv: "reads_cleared q" and s: "stopRead ops q = Some (u5, q5)"
  show "reads_cleared q5"
  proof (cases "m_readInProgress q")
    case False
    with s inv show ?thesis by (simp add: stopRead_def)
  next
    case True
    with s obtain q' where
      l: "for_loop (nat (m_numChans q)) (stopRead_chan ops) q = Some q'"
      and q5: "q5 = q'\<lparr>m_readInProgress := False\<rparr>"
      by (auto simp: stopRead_def bind_eq_Some_conv)
    from clearing_loop[OF l stopRead_chan_fields]
    have "m_numChans q' = m_numChans q"
      and "\<forall>c<nat (m_numChans q). array_get (m_readSamples q') (int c) = 0"
      by simp_all
    then show ?thesis
      by (simp add: reads_cleared_def q5)
  qed
qed

text \<open>
  A session on the example queue: idle with a zero entry, open with the entry 4, and idle
  again with the entry reset.
\<close>

theorem reads_cleared_invariant_witness:
  "reads_cleared ex_idle \<and> \<not> m_readInProgress ex_idle
   \<and> startRead AbstractFifo_ops ex_idle [] [] 0
        = Some ((True, [\<lparr>index1 = 0, size1 = 4, index2 = 0, size2 = 0\<rparr>], [100]), ex_open)
   \<and> reads_cleared ex_open \<and> m_readSamples ex_open = [4]
   \<and> stopRead AbstractFifo_ops ex_open = Some ((), ex_closed)
   \<and> reads_cleared ex_closed \<and> \<not> m_readInProgress ex_closed \<and> m_readSamples ex_closed = [0]"
proof -
  have i: "reads_cleared ex_idle"
    by (simp add: reads_cleared_def ex_idle_def array_get_def)
  from reads_cleared_invariant[of 4 2 ex_idle AbstractFifo_ops 0 "()" ex_idle 2 "()" ex_idle
      "[]" 0 0 0 "()" ex_idle "[]" "[]" 0
      "(True, [\<lparr>index1 = 0, size1 = 4, index2 = 0, size2 = 0\<rparr>], [100])" ex_open "()" ex_idle]
    i ex_open_reached
  have o: "reads_cleared ex_open" by blast
  from reads_cleared_invariant[of 4 2 ex_open AbstractFifo_ops 0 "()" ex_open 2 "()" ex_open
      "[]" 0 0 0 "()" ex_open "[]" "[]" 0
      "(False, [], [])" ex_open "()" ex_closed]
    o ex_closed_reached
  have c: "reads_cleared ex_closed" by blast
  show ?thesis
    using i o c ex_open_reached ex_closed_reached
    by (simp add: ex_idle_def ex_open_def ex_closed_def)
qed

section \<open>The cap on a read\<close>

text \<open>
  Claim C10. For every \<^verbatim>\<open>startRead\<close> call with a negative \<^verbatim>\<open>nMax\<close> the cap is ignored exactly
  as for \<^verbatim>\<open>nMax = 0\<close>: the call returns what the call with 0 returns, it succeeds on an idle
  well-formed queue, and for every channel the consumed length is the full ready-to-read
  count of the channel's allocator.
\<close>

theorem startRead_negative_cap:
  assumes "nMax < 0" and "\<not> m_readInProgress q"
    and "wf_shape q" and "wf_sizes q" and "wf_fifos q"
  shows "startRead AbstractFifo_ops q is0 ts0 nMax = startRead AbstractFifo_ops q is0 ts0 0
    \<and> (\<exists>idxs tss q'.
          startRead AbstractFifo_ops q is0 ts0 nMax = Some ((True, idxs, tss), q')
          \<and> (\<forall>chan. 0 \<le> chan \<and> chan < m_numChans q \<longrightarrow>
                 size1 (idxs ! nat chan) + size2 (idxs ! nat chan)
                   = af_getNumReady (m_fifos q ! nat chan)
               \<and> m_readSamples q' ! nat chan = af_getNumReady (m_fifos q ! nat chan)))"
proof -
  let ?n = "nat (m_numChans q)"
  let ?w = "chan_window AbstractFifo_ops q nMax"
  have ok: "af_ok (m_fifos q ! c)" if "c < ?n" for c
    using that assms(3,5) by (simp add: wf_fifos_def wf_shape_def)
  have w: "?w c = af_prepareToRead (m_fifos q ! c) (af_getNumReady (m_fifos q ! c))" for c
    using assms(1) by (simp add: chan_window_def samplesToRead_def AbstractFifo_ops_def)
  have rd: "\<forall>c<?n. chan_readable q (int c) (?w c)"
  proof (intro allI impI)
    fix c assume c: "c < ?n"
    have "0 \<le> index1 (?w c)" unfolding w by (rule af_read_all(2)[OF ok[OF c]])
    then show "chan_readable q (int c) (?w c)"
      using c assms(3) by (intro chan_readable_wf[OF assms(4)]) (simp_all add: wf_shape_def)
  qed
  have all: "consumed (?w c) = af_getNumReady (m_fifos q ! c)" if "c < ?n" for c
    unfolding w by (rule af_read_all(1)[OF ok[OF that]])
  have s: "startRead AbstractFifo_ops q is0 ts0 nMax =
      Some ((True, map ?w [0..<?n], map (\<lambda>c. reconciled q (int c) (?w c)) [0..<?n]),
            q\<lparr>m_readInProgress := True,
              m_readSamples := map (\<lambda>c. consumed (?w c)) [0..<?n],
              m_lastReadTimestamps :=
                map (\<lambda>c. reconciled q (int c) (?w c) + consumed (?w c)) [0..<?n]\<rparr>)"
    using rd by (simp add: startRead_idle[OF assms(2,3)])
  have per: "size1 (map ?w [0..<?n] ! nat chan) + size2 (map ?w [0..<?n] ! nat chan)
                   = af_getNumReady (m_fifos q ! nat chan)
      \<and> map (\<lambda>c. consumed (?w c)) [0..<?n] ! nat chan = af_getNumReady (m_fifos q ! nat chan)"
    if "0 \<le> chan \<and> chan < m_numChans q" for chan
  proof -
    from that have c: "nat chan < ?n" by simp
    then show ?thesis
      using all[OF c] by (simp add: consumed_def)
  qed
  have "startRead AbstractFifo_ops q is0 ts0 nMax = startRead AbstractFifo_ops q is0 ts0 0"
    using assms(1) by (intro startRead_no_cap) simp
  moreover have "\<exists>idxs tss q'.
          startRead AbstractFifo_ops q is0 ts0 nMax = Some ((True, idxs, tss), q')
          \<and> (\<forall>chan. 0 \<le> chan \<and> chan < m_numChans q \<longrightarrow>
                 size1 (idxs ! nat chan) + size2 (idxs ! nat chan)
                   = af_getNumReady (m_fifos q ! nat chan)
               \<and> m_readSamples q' ! nat chan = af_getNumReady (m_fifos q ! nat chan))"
    unfolding s using per by simp
  ultimately show ?thesis by blast
qed

text \<open>The idle example read with the cap \<open>-5\<close>: all four samples are consumed.\<close>

theorem startRead_negative_cap_witness:
  "(-5::int) < 0 \<and> \<not> m_readInProgress ex_idle \<and> wf_shape ex_idle \<and> wf_sizes ex_idle
   \<and> wf_fifos ex_idle \<and> af_getNumReady (m_fifos ex_idle ! nat 0) = 4
   \<and> startRead AbstractFifo_ops ex_idle [] [] (-5) = startRead AbstractFifo_ops ex_idle [] [] 0
   \<and> startRead AbstractFifo_ops ex_idle [] [] (-5)
       = Some ((True, [\<lparr>index1 = 0, size1 = 4, index2 = 0, size2 = 0\<rparr>], [100]), ex_open)"
proof -
  have a: "(-5::int) < 0" by simp
  have b: "\<not> m_readInProgress ex_idle" by (simp add: ex_idle_def)
  have c: "wf_shape ex_idle" by (simp add: wf_shape_def ex_idle_def)
  have d: "wf_sizes ex_idle" by (simp add: wf_sizes_def ex_idle_def)
  have e: "wf_fifos ex_idle" by (simp add: wf_fifos_def af_ok_def ex_idle_def)
  have r: "af_getNumReady (m_fifos ex_idle ! nat 0) = 4"
    by (simp add: af_getNumReady_def ex_idle_def)
  from startRead_negative_cap[OF a b c d e, of "[]" "[]"]
  have "startRead AbstractFifo_ops ex_idle [] [] (-5) = startRead AbstractFifo_ops ex_idle [] [] 0"
    by blast
  then show ?thesis
    using a b c d e r ex_open_reached by simp
qed

section \<open>Successive read sessions\<close>

text \<open>
  Take two successive successful \<^verbatim>\<open>startRead\<close> calls on a queue, with any sequence of
  \<^verbatim>\<open>writeChannel\<close> and \<^verbatim>\<open>stopRead\<close> calls between them. Whenever the later session's read
  window of a channel contains no block boundary, its reconciled timestamp is the earlier
  session's reconciled timestamp plus the earlier session's consumed sample count.
\<close>

lemma session_continues:
  assumes "wf_shape q"
    and "startRead ops q isA tsA nMax1 = Some ((True, idxs1, tss1), q1)"
    and "run_actions ops acts q1 = Some q2"
    and "startRead ops q2 isB tsB nMax2 = Some ((True, idxs2, tss2), q3)"
    and "0 \<le> chan" and "chan < m_numChans q"
    and "\<not> blockOffset (m_blockSize q2) (index1 (idxs2 ! nat chan))
             < size1 (idxs2 ! nat chan) + size2 (idxs2 ! nat chan)"
  shows "tss2 ! nat chan
           = tss1 ! nat chan + (size1 (idxs1 ! nat chan) + size2 (idxs1 ! nat chan))"
proof -
  from startRead_after[OF assms(2,1,5,6)]
  have w1: "wf_shape q1" and n1: "m_numChans q1 = m_numChans q"
    and l1: "m_lastReadTimestamps q1 ! nat chan = tss1 ! nat chan + consumed (idxs1 ! nat chan)"
    by simp_all
  from run_actions_keeps[OF assms(3) w1]
  have w2: "wf_shape q2" and l2: "m_lastReadTimestamps q2 = m_lastReadTimestamps q1"
    and n2: "m_numChans q2 = m_numChans q1"
    by simp_all
  have c2: "chan < m_numChans q2" using assms(6) n1 n2 by simp
  from startRead_after[OF assms(4) w2 assms(5) c2] assms(7)
  have "tss2 ! nat chan = m_lastReadTimestamps q2 ! nat chan"
    by (simp add: consumed_def)
  then have "tss2 ! nat chan = tss1 ! nat chan + consumed (idxs1 ! nat chan)"
    by (simp add: l2 l1)
  then show ?thesis by (simp add: consumed_def)
qed

text \<open>
  A session capped at one sample, a write and \<^verbatim>\<open>stopRead\<close>, and a session whose window
  \<open>[1, 4)\<close> lies inside the first block: \<open>101 = 100 + 1\<close>.
\<close>

lemma session_continues_example:
  "wf_shape ex_three
   \<and> startRead AbstractFifo_ops ex_three [] [] 1
       = Some ((True, [\<lparr>index1 = 0, size1 = 1, index2 = 0, size2 = 0\<rparr>], [100]), ex_three_open)
   \<and> run_actions AbstractFifo_ops [Write [[9]] 0 1 103, Stop] ex_three_open = Some ex_four
   \<and> startRead AbstractFifo_ops ex_four [] [] 0
       = Some ((True, [\<lparr>index1 = 1, size1 = 3, index2 = 0, size2 = 0\<rparr>], [101]), ex_four_open)
   \<and> \<not> blockOffset (m_blockSize ex_four) 1 < 3
   \<and> [101] ! nat 0 = [100] ! nat 0 + ((1::int) + 0)"
proof -
  have w: "wf_shape ex_three" by (simp add: wf_shape_def ex_three_def)
  have c: "(0::int) < m_numChans ex_three" by (simp add: ex_three_def)
  have b: "\<not> blockOffset (m_blockSize ex_four) 1 < 3"
    by (simp add: blockOffset_def ex_four_def signed_modulo_int_def)
  have b': "\<not> blockOffset (m_blockSize ex_four)
               (index1 ([\<lparr>index1 = 1, size1 = 3, index2 = 0, size2 = 0\<rparr>] ! nat 0))
             < size1 ([\<lparr>index1 = 1, size1 = 3, index2 = 0, size2 = 0\<rparr>] ! nat 0)
               + size2 ([\<lparr>index1 = 1, size1 = 3, index2 = 0, size2 = 0\<rparr>] ! nat 0)"
    using b by simp
  from session_continues[OF w ex_three_read ex_four_reached ex_four_read order_refl c b']
  have "[101] ! nat 0 = [100] ! nat 0 + ((1::int) + 0)"
    by simp
  then show ?thesis
    using w ex_three_read ex_four_reached ex_four_read b by blast
qed

text \<open>
  Claim C3 says that the reconciled timestamps of successive \<^verbatim>\<open>startRead\<close> calls never
  decrease. The writer below keeps a contiguous clock, one time unit per sample: 8 samples
  stamped 100, then 4 samples stamped 108, each read by a session of its own. The first
  write is granted a single window that covers the block starts 0 and 4, and the loop of
  \<^verbatim>\<open>fillTimestamps\<close> leaves \<open>116 = 100 + 4 * 4\<close> in slot 0 where 100 belongs (it does not
  advance \<^verbatim>\<open>blockIdx\<close> and scales the step twice). The first session reads slot 0 and
  returns 116 for the sample the writer stamped 100; the second session reads slot 2 and
  returns 108. The claim wants 100 and then 108; the code returns 116 and then 108, a
  decrease.
\<close>

theorem contiguous_writes_decrease:
  "do {
     (u, q1) \<leftarrow> setChannels AbstractFifo_ops (DataQueue_new 4 4) 1;
     (u, q2) \<leftarrow> writeChannel AbstractFifo_ops q1 [[1, 2, 3, 4, 5, 6, 7, 8]] 0 8 100;
     ((ok1, idxs1, tss1), q3) \<leftarrow> startRead AbstractFifo_ops q2 [] [] 0;
     (u, q4) \<leftarrow> stopRead AbstractFifo_ops q3;
     (u, q5) \<leftarrow> writeChannel AbstractFifo_ops q4 [[9, 10, 11, 12]] 0 4 (100 + 8);
     ((ok2, idxs2, tss2), q6) \<leftarrow> startRead AbstractFifo_ops q5 [] [] 0;
     Some (m_timestamps q2, (ok1, idxs1, tss1), m_timestamps q5, (ok2, idxs2, tss2),
           tss1 ! 0 \<le> tss2 ! 0)
   } = Some ([[116, 0, 0, 0]],
             (True, [\<lparr>index1 = 0, size1 = 8, index2 = 0, size2 = 0\<rparr>], [116]),
             [[116, 0, 108, 0]],
             (True, [\<lparr>index1 = 8, size1 = 4, index2 = 0, size2 = 0\<rparr>], [108]),
             False)"
  by code_simp

section \<open>Overflow on write\<close>

text \<open>
  Claim C4. A \<^verbatim>\<open>writeChannel\<close> call that requests more samples than the ring can supply
  still completes. The total the allocator grants, \<open>size1 + size2\<close>, is the free space, is
  below the request and at most the capacity. Exactly the first \<open>granted\<close> samples of the
  source are copied into the sample store, at the ring positions that follow the write
  cursor, and the write cursor advances by \<open>granted\<close>. Every other position of the row keeps
  its sample, so the trailing samples of the source are written nowhere; in particular the
  samples written earlier and not yet read are not overwritten. The other rows are not
  touched.
\<close>

theorem overflowing_write:
  assumes "wf_shape q" and "wf_sizes q" and "wf_fifos q"
    and "0 \<le> channel" and "channel < m_numChans q"
    and "channel < int (length buffer)" and "nSamples \<le> int (length (buffer ! nat channel))"
    and "af_getFreeSpace (m_fifos q ! nat channel) < nSamples"
  shows "\<exists>q'. writeChannel AbstractFifo_ops q buffer channel nSamples timestamp = Some ((), q') \<and>
     (let f = m_fifos q ! nat channel;
          w = af_prepareToWrite f nSamples;
          granted = size1 w + size2 w;
          B = m_maxSize q;
          old = m_buffer q ! nat channel;
          new = m_buffer q' ! nat channel
      in granted = af_getFreeSpace f \<and> 0 \<le> granted \<and> granted < nSamples \<and> granted \<le> B
       \<and> m_fifos q' = (m_fifos q)[nat channel := af_finishedWrite f granted]
       \<and> validEnd (m_fifos q' ! nat channel) = (validEnd f + granted) mod B
       \<and> validStart (m_fifos q' ! nat channel) = validStart f
       \<and> af_getNumReady (m_fifos q' ! nat channel) = af_getNumReady f + granted
       \<and> af_getFreeSpace (m_fifos q' ! nat channel) = 0
       \<and> length new = length old
       \<and> (\<forall>k. 0 \<le> k \<and> k < granted \<longrightarrow>
             new ! nat ((validEnd f + k) mod B) = buffer ! nat channel ! nat k)
       \<and> (\<forall>p. 0 \<le> p \<and> p < B \<and> (\<forall>k. 0 \<le> k \<and> k < granted \<longrightarrow> p \<noteq> (validEnd f + k) mod B)
             \<longrightarrow> new ! nat p = old ! nat p)
       \<and> (\<forall>j. 0 \<le> j \<and> j < af_getNumReady f \<longrightarrow>
             new ! nat ((validStart f + j) mod B) = old ! nat ((validStart f + j) mod B))
       \<and> (\<forall>c. c \<noteq> nat channel \<longrightarrow> m_buffer q' ! c = m_buffer q ! c))"
proof -
  let ?c = "nat channel"
  let ?f = "m_fifos q ! ?c"
  let ?w = "af_prepareToWrite ?f nSamples"
  let ?G = "size1 ?w + size2 ?w"
  let ?B = "m_maxSize q"
  let ?row = "m_buffer q ! ?c"
  let ?src = "buffer ! ?c"
  let ?vs = "validStart ?f" and ?ve = "validEnd ?f"
  let ?R = "if ?vs \<le> ?ve then ?ve - ?vs else ?B - (?vs - ?ve)"
  have c: "?c < nat (m_numChans q)" using assms(4,5) by simp
  have lens: "length (m_fifos q) = nat (m_numChans q)" "length (m_buffer q) = nat (m_numChans q)"
    using assms(1) by (simp_all add: wf_shape_def)
  have ok: "af_ok ?f" and bs: "bufferSize ?f = ?B"
    using assms(3) c lens by (simp_all add: wf_fifos_def)
  have lrow: "int (length ?row) = ?B"
    using assms(2) c lens by (simp add: wf_sizes_def)
  have pos: "0 < m_blockSize q" using assms(2) by (simp add: wf_sizes_def)
  have cur: "0 \<le> ?vs" "?vs < ?B" "0 \<le> ?ve" "?ve < ?B"
    using ok bs by (simp_all add: af_ok_def)
  have R: "af_getNumReady ?f = ?R"
    by (simp add: af_getNumReady_def Let_def bs)
  note win = af_overflow_window[OF ok assms(8)]
  have G: "?G = af_getFreeSpace ?f" by (rule win(2))
  have GR: "?G = ?B - ?R - 1" unfolding G by (simp add: af_getFreeSpace_def R bs)
  have g0: "0 < ?G \<longrightarrow> index1 ?w = ?ve" using win(9) G by simp
  have w10: "0 < size2 ?w \<longrightarrow> index1 ?w + size1 ?w = ?B" using win(10) bs by simp
  have w11: "0 < size2 ?w \<longrightarrow> ?vs \<le> ?ve \<and> size2 ?w < ?vs" using win(11) by simp
  have w12: "?ve < ?vs \<longrightarrow> index1 ?w + size1 ?w < ?vs \<or> ?G = 0" using win(12) G by simp
  have w6: "index1 ?w + size1 ?w \<le> ?B" using win(6) bs by simp
  have srcl: "?G \<le> int (length ?src)" using G assms(7,8) by simp
  have wprep: "?w = prepareToWrite AbstractFifo_ops ?f nSamples"
    by (simp add: AbstractFifo_ops_def)
  let ?new = "copy_samples (copy_samples ?row (nat (index1 ?w)) ?src 0 (nat (size1 ?w)))
                       0 ?src (nat (size1 ?w)) (nat (size2 ?w))"
  let ?upd = "\<lambda>tss. q\<lparr>m_buffer := (m_buffer q)[?c := ?new], m_timestamps := tss,
                  m_fifos := (m_fifos q)[?c := af_finishedWrite ?f ?G]\<rparr>"
  have "\<exists>tss. writeChannel AbstractFifo_ops q buffer channel nSamples timestamp =
     Some ((), q\<lparr>m_buffer := (m_buffer q)[?c :=
                     copy_samples
                       (copy_samples ?row (nat (index1 ?w)) ?src 0 (nat (size1 ?w)))
                       (nat (index2 ?w)) ?src (nat (size1 ?w)) (nat (size2 ?w))],
                  m_timestamps := tss,
                  m_fifos := (m_fifos q)[?c :=
                     finishedWrite AbstractFifo_ops ?f (size1 ?w + size2 ?w)]\<rparr>)"
  proof (rule writeChannel_rows[OF assms(1) pos assms(4,5,6) wprep win(3,4)])
    show "0 < size1 ?w \<longrightarrow> 0 \<le> index1 ?w \<and> index1 ?w + size1 ?w \<le> int (length ?row)"
      using win(5) w6 lrow by simp
    show "0 < size2 ?w \<longrightarrow> 0 \<le> index2 ?w \<and> index2 ?w + size2 ?w \<le> int (length ?row)"
      using win(3,5,7,8) w6 lrow by simp
    show "size1 ?w + size2 ?w \<le> int (length ?src)" by (rule srcl)
  qed
  moreover have "finishedWrite AbstractFifo_ops = af_finishedWrite"
    by (simp add: AbstractFifo_ops_def)
  moreover have "nat (index2 ?w) = 0" using win(7) by simp
  ultimately obtain tss where
    wr: "writeChannel AbstractFifo_ops q buffer channel nSamples timestamp = Some ((), ?upd tss)"
    by auto
  let ?q' = "?upd tss"
  let ?N = "m_buffer ?q' ! ?c"
  let ?F = "m_fifos ?q' ! ?c"
  have N: "?N = ?new" using c lens by simp
  have F: "?F = af_finishedWrite ?f ?G" using c lens by simp
  have new: "?new ! nat p
     = (if p < size2 ?w then ?src ! nat (size1 ?w + p)
        else if index1 ?w \<le> p \<and> p < index1 ?w + size1 ?w then ?src ! nat (p - index1 ?w)
        else ?row ! nat p)" if "0 \<le> p" "p < ?B" for p
  proof (rule two_window_row[OF win(5,3,4) _ win(8) srcl that(1)])
    show "index1 ?w + size1 ?w \<le> int (length ?row)" using w6 lrow by simp
    show "p < int (length ?row)" using that lrow by simp
  qed
  have t1: "?G = af_getFreeSpace ?f" by (rule G)
  have t2: "0 \<le> ?G" using win(1) G by simp
  have t3: "?G < nSamples" using assms(8) G by simp
  note after = ring_cursor_after[OF cur GR]
  have t4: "?G \<le> ?B" by (rule after(2))
  have t5: "m_fifos ?q' = (m_fifos q)[?c := af_finishedWrite ?f ?G]" by simp
  have "validEnd (af_finishedWrite ?f ?G) = (if ?ve + ?G \<ge> ?B then ?ve + ?G - ?B else ?ve + ?G)"
    by (simp add: af_finishedWrite_def Let_def bs)
  also have "\<dots> = (?ve + ?G) mod ?B" by (rule after(3))
  finally have t6: "validEnd ?F = (?ve + ?G) mod ?B" unfolding F .
  have t7: "validStart ?F = ?vs"
    unfolding F by (simp add: af_finishedWrite_def Let_def)
  have "af_getNumReady (af_finishedWrite ?f ?G)
      = (let e = (if ?ve + ?G \<ge> ?B then ?ve + ?G - ?B else ?ve + ?G)
          in if e \<ge> ?vs then e - ?vs else ?B - (?vs - e))"
    by (simp add: af_finishedWrite_def af_getNumReady_def Let_def bs)
  also have "\<dots> = ?R + ?G" by (rule after(4))
  finally have t8: "af_getNumReady ?F = af_getNumReady ?f + ?G" unfolding F R .
  have t9: "af_getFreeSpace ?F = 0"
  proof -
    have "bufferSize ?F = ?B" unfolding F by (simp add: af_finishedWrite_def Let_def bs)
    then show ?thesis using t8 GR R by (simp add: af_getFreeSpace_def)
  qed
  have t10: "length ?N = length ?row"
  proof -
    have a: "nat (index1 ?w) + nat (size1 ?w) \<le> length ?row"
      using win(3,5) w6 lrow by linarith
    have b: "0 + nat (size1 ?w) \<le> length ?src" using win(3,4) srcl by linarith
    have l1: "length (copy_samples ?row (nat (index1 ?w)) ?src 0 (nat (size1 ?w))) = length ?row"
      by (rule length_copy_samples[OF a b])
    have a2: "0 + nat (size2 ?w) \<le> length (copy_samples ?row (nat (index1 ?w)) ?src 0 (nat (size1 ?w)))"
      unfolding l1 using win(3,4,5,8) w6 lrow by linarith
    have b2: "nat (size1 ?w) + nat (size2 ?w) \<le> length ?src"
      using win(3,4) srcl by linarith
    show ?thesis unfolding N using length_copy_samples[OF a2 b2] l1 by simp
  qed
  have wpos: "(?ve + k) mod ?B = (if k < size1 ?w then index1 ?w + k else k - size1 ?w)"
    if "0 \<le> k" "k < ?G" for k
    by (rule ring_write_position[OF cur GR refl win(3,4) w6 g0 w10 that])
  have t11: "\<forall>k. 0 \<le> k \<and> k < ?G \<longrightarrow> ?N ! nat ((?ve + k) mod ?B) = ?src ! nat k"
  proof (intro allI impI)
    fix k assume "0 \<le> k \<and> k < ?G"
    then have k: "0 \<le> k" "k < ?G" by simp_all
    show "?N ! nat ((?ve + k) mod ?B) = ?src ! nat k"
    proof (cases "k < size1 ?w")
      case True
      let ?p = "index1 ?w + k"
      have p: "0 \<le> ?p" "?p < ?B" using True k win(5) w6 by simp_all
      have "\<not> ?p < size2 ?w" using win(8) k by simp
      then have "?new ! nat ?p = ?src ! nat k" using new[OF p] True k by simp
      then show ?thesis unfolding N using wpos[OF k] True by simp
    next
      case False
      let ?p = "k - size1 ?w"
      have k2: "?p < size2 ?w" using k by simp
      have p: "0 \<le> ?p" "?p < ?B" using False k2 win(3,5,8) w6 by simp_all
      have "?new ! nat ?p = ?src ! nat (size1 ?w + ?p)" using new[OF p] k2 by simp
      then show ?thesis unfolding N using wpos[OF k] False by simp
    qed
  qed
  have t12: "\<forall>p. 0 \<le> p \<and> p < ?B \<and> (\<forall>k. 0 \<le> k \<and> k < ?G \<longrightarrow> p \<noteq> (?ve + k) mod ?B)
             \<longrightarrow> ?N ! nat p = ?row ! nat p"
  proof (intro allI impI)
    fix p assume a: "0 \<le> p \<and> p < ?B \<and> (\<forall>k. 0 \<le> k \<and> k < ?G \<longrightarrow> p \<noteq> (?ve + k) mod ?B)"
    then have p: "0 \<le> p" "p < ?B"
      and free: "\<And>k. 0 \<le> k \<Longrightarrow> k < ?G \<Longrightarrow> p \<noteq> (?ve + k) mod ?B" by simp_all
    have n2: "\<not> p < size2 ?w"
    proof
      assume lt: "p < size2 ?w"
      let ?k = "size1 ?w + p"
      have k: "0 \<le> ?k" "?k < ?G" using lt p win(3) by simp_all
      have "(?ve + ?k) mod ?B = p" using wpos[OF k] p win(3) by simp
      with free[OF k] show False by simp
    qed
    have n1: "\<not> (index1 ?w \<le> p \<and> p < index1 ?w + size1 ?w)"
    proof
      assume b: "index1 ?w \<le> p \<and> p < index1 ?w + size1 ?w"
      let ?k = "p - index1 ?w"
      have k: "0 \<le> ?k" "?k < ?G" using b win(4) by simp_all
      have "(?ve + ?k) mod ?B = p" using wpos[OF k] b by simp
      with free[OF k] show False by simp
    qed
    show "?N ! nat p = ?row ! nat p" unfolding N using new[OF p] n1 n2 by simp
  qed
  have t13: "\<forall>j. 0 \<le> j \<and> j < af_getNumReady ?f \<longrightarrow>
             ?N ! nat ((?vs + j) mod ?B) = ?row ! nat ((?vs + j) mod ?B)"
  proof (intro allI impI)
    fix j assume "0 \<le> j \<and> j < af_getNumReady ?f"
    then have j: "0 \<le> j" "j < ?R" using R by simp_all
    let ?p = "(?vs + j) mod ?B"
    have p: "0 \<le> ?p" "?p < ?B" using cur by simp_all
    from ring_read_position[OF cur GR refl win(3,4) g0 w11 w12 j]
    have n2: "\<not> ?p < size2 ?w" and n1: "\<not> (index1 ?w \<le> ?p \<and> ?p < index1 ?w + size1 ?w)"
      by blast+
    from new[OF p] show "?N ! nat ?p = ?row ! nat ?p"
      unfolding N if_not_P[OF n2] if_not_P[OF n1] .
  qed
  have t14: "\<forall>c. c \<noteq> ?c \<longrightarrow> m_buffer ?q' ! c = m_buffer q ! c" by simp
  show ?thesis
    unfolding Let_def
    by (intro exI[of _ ?q'] conjI) (fact wr t1 t2 t3 t4 t5 t6 t7 t8 t9 t10 t11 t12 t13 t14)+
qed

text \<open>
  Six samples offered to a ring with four free positions: the samples 7 to 10 land at the
  positions 6, 7, 0 and 1, the samples 11 and 12 are dropped, and the unread samples 4, 5
  and 6 stay where they are.
\<close>

theorem overflowing_write_witness:
  "wf_shape ex_wrap \<and> wf_sizes ex_wrap \<and> wf_fifos ex_wrap
   \<and> af_getFreeSpace (m_fifos ex_wrap ! nat 0) = 4
   \<and> af_prepareToWrite (m_fifos ex_wrap ! nat 0) 6
        = \<lparr>index1 = 6, size1 = 2, index2 = 0, size2 = 2\<rparr>
   \<and> writeChannel AbstractFifo_ops ex_wrap [[7, 8, 9, 10, 11, 12]] 0 6 106
        = Some ((), ex_wrap_full)
   \<and> m_buffer ex_wrap ! 0 = [1, 2, 3, 4, 5, 6, 0, 0]
   \<and> m_buffer ex_wrap_full ! 0 = [9, 10, 3, 4, 5, 6, 7, 8]
   \<and> af_getNumReady (m_fifos ex_wrap_full ! nat 0) = af_getNumReady (m_fifos ex_wrap ! nat 0) + 4
   \<and> af_getFreeSpace (m_fifos ex_wrap_full ! nat 0) = 0"
proof -
  have a: "wf_shape ex_wrap" by (simp add: wf_shape_def ex_wrap_def)
  have b: "wf_sizes ex_wrap" by (simp add: wf_sizes_def ex_wrap_def)
  have c: "wf_fifos ex_wrap" by (simp add: wf_fifos_def af_ok_def ex_wrap_def)
  have d: "(0::int) < m_numChans ex_wrap" by (simp add: ex_wrap_def)
  have e: "(0::int) < int (length [[7, 8, 9, 10, 11, 12::real]])"
    "(6::int) \<le> int (length ([[7, 8, 9, 10, 11, 12::real]] ! nat 0))" by simp_all
  have fr: "af_getFreeSpace (m_fifos ex_wrap ! nat 0) = 4"
    by (simp add: af_getFreeSpace_def af_getNumReady_def ex_wrap_def)
  have f: "af_getFreeSpace (m_fifos ex_wrap ! nat 0) < 6" using fr by simp
  have w: "af_prepareToWrite (m_fifos ex_wrap ! nat 0) 6
        = \<lparr>index1 = 6, size1 = 2, index2 = 0, size2 = 2\<rparr>"
    by (simp add: af_prepareToWrite_def ex_wrap_def)
  from overflowing_write[OF a b c order_refl d e f, of 106]
  obtain q' where q': "writeChannel AbstractFifo_ops ex_wrap [[7, 8, 9, 10, 11, 12]] 0 6 106
       = Some ((), q')"
    and r: "af_getNumReady (m_fifos q' ! nat 0) = af_getNumReady (m_fifos ex_wrap ! nat 0)
          + (size1 (af_prepareToWrite (m_fifos ex_wrap ! nat 0) 6)
             + size2 (af_prepareToWrite (m_fifos ex_wrap ! nat 0) 6))"
    and z: "af_getFreeSpace (m_fifos q' ! nat 0) = 0"
    unfolding Let_def by blast
  from q' have eq: "q' = ex_wrap_full" by (simp add: ex_wrap_full_reached)
  have rows: "m_buffer ex_wrap ! 0 = [1, 2, 3, 4, 5, 6, 0, 0]"
    "m_buffer ex_wrap_full ! 0 = [9, 10, 3, 4, 5, 6, 7, 8]"
    by (simp_all add: ex_wrap_def ex_wrap_full_def)
  have r': "af_getNumReady (m_fifos ex_wrap_full ! nat 0)
      = af_getNumReady (m_fifos ex_wrap ! nat 0) + 4"
    using r unfolding eq w by simp
  show ?thesis
    using a b c fr w ex_wrap_full_reached rows r' z[unfolded eq] by blast
qed

end
